theory Spec2Isabelle
  imports Main "HOL-Library.Sublist"
begin

section \<open>Strings\<close>

text \<open>
  File texts, paths and symbol names are \<^typ>\<open>string\<close>s. A character stands for the code
  unit of the same number, so the model covers texts whose code units lie in
  \<open>U+0000 .. U+00FF\<close>. The character classes below are the ones the patterns of the
  extension use, restricted to that range.
\<close>

definition isSpace :: "char \<Rightarrow> bool" where
  \<comment> \<open>the class \<open>\s\<close>, which is also what \<open>String.prototype.trim\<close> strips\<close>
  "isSpace c = (let n = (of_char c :: nat) in (9 \<le> n \<and> n \<le> 13) \<or> n = 32 \<or> n = 160)"

definition isWordChar :: "char \<Rightarrow> bool" where
  \<comment> \<open>the class \<open>\w\<close>\<close>
  "isWordChar c = (let n = (of_char c :: nat) in
     (48 \<le> n \<and> n \<le> 57) \<or> (65 \<le> n \<and> n \<le> 90) \<or> n = 95 \<or> (97 \<le> n \<and> n \<le> 122))"

definition isAlnum :: "char \<Rightarrow> bool" where
  \<comment> \<open>the class \<open>[a-zA-Z0-9]\<close>\<close>
  "isAlnum c = (let n = (of_char c :: nat) in
     (48 \<le> n \<and> n \<le> 57) \<or> (65 \<le> n \<and> n \<le> 90) \<or> (97 \<le> n \<and> n \<le> 122))"

definition isDot :: "char \<Rightarrow> bool" where
  \<comment> \<open>the class \<open>.\<close>: everything but a line terminator\<close>
  "isDot c = (let n = (of_char c :: nat) in n \<noteq> 10 \<and> n \<noteq> 13)"

definition anyChar :: "char \<Rightarrow> bool" where
  \<comment> \<open>the class \<open>[\s\S]\<close>\<close>
  "anyChar c = True"

definition notChar :: "char \<Rightarrow> char \<Rightarrow> bool" where
  \<comment> \<open>a class \<open>[^x]\<close>\<close>
  "notChar x c = (c \<noteq> x)"

definition isQuote :: "char \<Rightarrow> bool" where
  \<comment> \<open>the class \<open>['"]\<close>\<close>
  "isQuote c = (c = CHR 0x27 \<or> c = CHR 0x22)"

definition toUpperCase :: "char \<Rightarrow> char" where
  \<comment> \<open>\<open>toUpperCase\<close> of a one-character string; the extension applies it to word characters only\<close>
  "toUpperCase c = (let n = (of_char c :: nat) in
     if 97 \<le> n \<and> n \<le> 122 then char_of (n - 32) else c)"

fun findIndex :: "string \<Rightarrow> string \<Rightarrow> nat option" where
  "findIndex [] sub = (if sub = [] then Some 0 else None)"
| "findIndex (c # cs) sub =
     (if prefix sub (c # cs) then Some 0 else map_option Suc (findIndex cs sub))"

definition str_includes :: "string \<Rightarrow> string \<Rightarrow> bool" where
  \<comment> \<open>\<open>s.includes(sub)\<close>\<close>
  "str_includes s sub = (findIndex s sub \<noteq> None)"

definition indexOf :: "string \<Rightarrow> string \<Rightarrow> nat \<Rightarrow> int" where
  \<comment> \<open>\<open>s.indexOf(sub, from)\<close>, \<open>-1\<close> when there is no occurrence\<close>
  "indexOf s sub from =
     (let k = min from (length s) in
      case findIndex (drop k s) sub of None \<Rightarrow> - 1 | Some i \<Rightarrow> int (k + i))"

fun splitOn :: "char \<Rightarrow> string \<Rightarrow> string list" where
  "splitOn d [] = [[]]"
| "splitOn d (c # cs) =
     (if c = d then [] # splitOn d cs
      else (case splitOn d cs of [] \<Rightarrow> [[c]] | h # t \<Rightarrow> (c # h) # t))"

definition trim :: "string \<Rightarrow> string" where
  "trim s = rev (dropWhile isSpace (rev (dropWhile isSpace s)))"

definition slice :: "string \<Rightarrow> nat \<Rightarrow> nat \<Rightarrow> string" where
  \<comment> \<open>\<open>s.slice(a, b)\<close> for non-negative indices\<close>
  "slice s a b = take (b - a) (drop a s)"


section \<open>Regular expressions\<close>

text \<open>
  The patterns of the extension are written in the following fragment of the pattern
  language: character classes, the quantifiers \<open>*\<close>, \<open>+\<close> and \<open>*?\<close> on a character class,
  \<open>?\<close> on a group, alternation, sequence, capture groups and the assertions \<open>\b\<close>, \<open>^\<close>
  and \<open>$\<close>. \<open>Atom p\<close> is one character of class \<open>p\<close>.
\<close>

datatype regex =
    Atom "char \<Rightarrow> bool"
  | Star "char \<Rightarrow> bool"
  | Plus "char \<Rightarrow> bool"
  | LazyStar "char \<Rightarrow> bool"
  | Opt regex
  | Alt regex regex
  | Seq regex regex
  | Eps
  | Group nat regex
  | WordB
  | Bol
  | Eol

definition chr :: "char \<Rightarrow> regex" where
  "chr x = Atom (\<lambda>c. c = x)"

definition cat :: "regex list \<Rightarrow> regex" where
  "cat rs = foldr Seq rs Eps"

definition lit :: "string \<Rightarrow> regex" where
  "lit s = cat (map chr s)"

text \<open>
  A matcher state is the character before the current position (none at the start of the
  input), the rest of the input, and the captures so far (most recent first). \<open>ms r st\<close>
  lists the states in which a match of \<open>r\<close> started in \<open>st\<close> can end, in the order in which
  a backtracking matcher tries them: a greedy quantifier offers the longest run first, a
  lazy one the shortest, an alternation its left branch first.
\<close>

type_synonym mstate = "char option \<times> string \<times> (nat \<times> string) list"

fun runs :: "(char \<Rightarrow> bool) \<Rightarrow> mstate \<Rightarrow> mstate list" where
  "runs p (prev, [], caps) = [(prev, [], caps)]"
| "runs p (prev, c # cs, caps) =
     (prev, c # cs, caps) # (if p c then runs p (Some c, cs, caps) else [])"

definition wordBefore :: "char option \<Rightarrow> bool" where
  "wordBefore prev = (case prev of None \<Rightarrow> False | Some c \<Rightarrow> isWordChar c)"

definition wordAfter :: "string \<Rightarrow> bool" where
  "wordAfter rest = (case rest of [] \<Rightarrow> False | c # _ \<Rightarrow> isWordChar c)"

fun ms :: "regex \<Rightarrow> mstate \<Rightarrow> mstate list" where
  "ms (Atom p) (prev, rest, caps) =
     (case rest of [] \<Rightarrow> [] | c # cs \<Rightarrow> if p c then [(Some c, cs, caps)] else [])"
| "ms (Star p) st = rev (runs p st)"
| "ms (Plus p) st = rev (tl (runs p st))"
| "ms (LazyStar p) st = runs p st"
| "ms (Opt r) st = ms r st @ [st]"
| "ms (Alt a b) st = ms a st @ ms b st"
| "ms (Seq a b) st = concat (map (ms b) (ms a st))"
| "ms Eps st = [st]"
| "ms (Group n r) (prev, rest, caps) =
     map (\<lambda>(prev', rest', caps'). (prev', rest', (n, take (length rest - length rest') rest) # caps'))
       (ms r (prev, rest, caps))"
| "ms WordB (prev, rest, caps) =
     (if wordBefore prev \<noteq> wordAfter rest then [(prev, rest, caps)] else [])"
| "ms Bol (prev, rest, caps) = (if prev = None then [(prev, rest, caps)] else [])"
| "ms Eol (prev, rest, caps) = (if rest = [] then [(prev, rest, caps)] else [])"

text \<open>
  \<open>scan r prev rest\<close> is one \<open>exec\<close>: the leftmost position of \<open>rest\<close> at which \<open>r\<close> matches,
  as the suffix starting there, with the first end state the matcher finds.
\<close>

fun scan :: "regex \<Rightarrow> char option \<Rightarrow> string \<Rightarrow> (string \<times> mstate) option" where
  "scan r prev [] = (case ms r (prev, [], []) of [] \<Rightarrow> None | st # _ \<Rightarrow> Some ([], st))"
| "scan r prev (c # cs) =
     (case ms r (prev, c # cs, []) of
        [] \<Rightarrow> scan r (Some c) cs
      | st # _ \<Rightarrow> Some (c # cs, st))"

record rmatch =
  index :: nat
  matched :: string
  groups :: "(nat \<times> string) list"

definition mkMatch :: "string \<Rightarrow> string \<times> mstate \<Rightarrow> rmatch" where
  \<comment> \<open>the match object for a match in the text \<open>s\<close>\<close>
  "mkMatch s m = (case m of (start, (prev', rest', caps)) \<Rightarrow>
     \<lparr>index = length s - length start,
      matched = take (length start - length rest') start,
      groups = caps\<rparr>)"

definition group :: "rmatch \<Rightarrow> nat \<Rightarrow> string option" where
  \<comment> \<open>\<open>m[n]\<close>, \<open>None\<close> for \<open>undefined\<close>\<close>
  "group m n = map_of (groups m) n"

definition exec :: "regex \<Rightarrow> string \<Rightarrow> rmatch option" where
  \<comment> \<open>\<open>s.match(r)\<close> for a pattern without the \<open>g\<close> flag\<close>
  "exec r s = map_option (mkMatch s) (scan r None s)"

definition test :: "regex \<Rightarrow> string \<Rightarrow> bool" where
  "test r s = (scan r None s \<noteq> None)"

definition search :: "regex \<Rightarrow> string \<Rightarrow> int" where
  \<comment> \<open>\<open>s.search(r)\<close>\<close>
  "search r s = (case exec r s of None \<Rightarrow> - 1 | Some m \<Rightarrow> int (index m))"

text \<open>
  The loop \<open>while ((m = r.exec(text)) !== null)\<close> of a pattern with the \<open>g\<close> flag: each \<open>exec\<close>
  starts where the last match ended. A match of the empty string leaves \<open>lastIndex\<close> where
  it is, so that the loop finds it again and never ends: that is the result \<open>None\<close>.
\<close>

function execLoop :: "regex \<Rightarrow> char option \<Rightarrow> string \<Rightarrow> (string \<times> mstate) list option" where
  "execLoop r prev rest =
     (case scan r prev rest of
        None \<Rightarrow> Some []
      | Some (start, (prev', rest', caps)) \<Rightarrow>
          if length rest' < length rest
          then map_option ((#) (start, (prev', rest', caps))) (execLoop r prev' rest')
          else None)"
  by pat_completeness auto
termination
  by (relation "measure (\<lambda>(r, prev, rest). length rest)") auto

definition execAll :: "regex \<Rightarrow> string \<Rightarrow> rmatch list option" where
  "execAll r s = map_option (map (mkMatch s)) (execLoop r None s)"

text \<open>
  \<open>s.replace(r, '')\<close> for a pattern with the \<open>g\<close> flag: every match is cut out; after a
  match of the empty string the search moves on by one character.
\<close>

function removeLoop :: "regex \<Rightarrow> char option \<Rightarrow> string \<Rightarrow> string" where
  "removeLoop r prev rest =
     (case scan r prev rest of
        None \<Rightarrow> rest
      | Some (start, (prev', rest', caps)) \<Rightarrow>
          take (length rest - length start) rest @
          (if length rest' < length rest then removeLoop r prev' rest'
           else (case rest of [] \<Rightarrow> [] | c # cs \<Rightarrow> c # removeLoop r (Some c) cs)))"
  by pat_completeness auto
termination
  by (relation "measure (\<lambda>(r, prev, rest). length rest)") auto

definition removeAll :: "regex \<Rightarrow> string \<Rightarrow> string" where
  "removeAll r s = removeLoop r None s"


section \<open>The symbol extractor\<close>

datatype error =
    PatternNotModelled string
    \<comment> \<open>\<open>new RegExp\<close> was given a pattern with this text spliced in, and the text has one of
       the characters \<open>\ * + ? ( ) [ ] { } |\<close>: the source throws a \<open>SyntaxError\<close> there or
       matches with what the character means in a pattern, and the model follows neither\<close>
  | Diverges
    \<comment> \<open>an \<open>exec\<close> loop that does not end\<close>

record component =
  name :: string
  range :: "int \<times> int"
  \<comment> \<open>the two offsets given to \<open>document.positionAt\<close>\<close>

definition syntaxChars :: string where
  "syntaxChars = CHR 0x5C # ''*+?()[]{}|''"

definition atomOf :: "char \<Rightarrow> regex" where
  "atomOf c = (if c = CHR ''.'' then Atom isDot
               else if c = CHR ''^'' then Bol
               else if c = CHR ''$'' then Eol
               else chr c)"

fun fragment :: "string \<Rightarrow> regex option" where
  \<comment> \<open>the pattern that a text spliced into a pattern source stands for: \<open>.\<close> is the
     wildcard, \<open>^\<close> and \<open>$\<close> are the assertions, every other character outside
     \<open>syntaxChars\<close> is itself; a text with a character of \<open>syntaxChars\<close> is not modelled\<close>
  "fragment [] = Some Eps"
| "fragment (c # cs) =
     (if c \<in> set syntaxChars then None else map_option (Seq (atomOf c)) (fragment cs))"

definition namedExportRegex :: regex where
  \<comment> \<open>\<open>/export\s*{([^}]+)}/g\<close>\<close>
  "namedExportRegex =
     cat [lit ''export'', Star isSpace, chr CHR ''{'', Group 1 (Plus (notChar CHR ''}'')), chr CHR ''}'']"

definition commentRegex :: regex where
  \<comment> \<open>\<open>/\/\*[\s\S]*?\*\/|\/\/.*/g\<close>\<close>
  "commentRegex =
     Alt (cat [lit ''/*'', LazyStar anyChar, lit ''*/'']) (cat [lit ''//'', Star isDot])"

definition itemRegex :: "string \<Rightarrow> regex option" where
  \<comment> \<open>\<open>new RegExp(`\\b${item}\\b`)\<close>\<close>
  "itemRegex item = map_option (\<lambda>r. cat [WordB, r, WordB]) (fragment item)"

definition directExportRegex :: regex where
  \<comment> \<open>\<open>/export\s+const\s+(\w+)\s*=\s*styled\.[a-zA-Z0-9]+(?:<[^>]+>)?`/g\<close>\<close>
  "directExportRegex =
     cat [lit ''export'', Plus isSpace, lit ''const'', Plus isSpace, Group 1 (Plus isWordChar),
          Star isSpace, chr CHR ''='', Star isSpace, lit ''styled.'', Plus isAlnum,
          Opt (cat [chr CHR ''<'', Plus (notChar CHR ''>''), chr CHR ''>'']), chr CHR 0x60]"

definition directTestRegex :: regex where
  \<comment> \<open>\<open>/export\s+const\s+\w+\s*=\s*styled\./\<close>\<close>
  "directTestRegex =
     cat [lit ''export'', Plus isSpace, lit ''const'', Plus isSpace, Plus isWordChar,
          Star isSpace, chr CHR ''='', Star isSpace, lit ''styled.'']"

definition isStyledComponentFile :: "string \<Rightarrow> bool" where
  "isStyledComponentFile text =
     (if \<not> str_includes text ''styled.'' \<or>
         (\<not> str_includes text ''export {'' \<and> \<not> str_includes text ''export const'')
      then False
      else str_includes text ''styled.'' \<and>
           (str_includes text ''export {'' \<or> test directTestRegex text))"

definition exportedItems :: "string \<Rightarrow> string list" where
  \<comment> \<open>the items of one export block, from the text between its braces\<close>
  "exportedItems exportContent =
     filter (\<lambda>item. length item > 0) (map trim (splitOn CHR '','' (removeAll commentRegex exportContent)))"

fun itemComponents :: "string \<Rightarrow> rmatch \<Rightarrow> string list \<Rightarrow> error + component list" where
  \<comment> \<open>the loop over the items of the export block matched by \<open>namedMatch\<close>\<close>
  "itemComponents text namedMatch [] = Inr []"
| "itemComponents text namedMatch (item # items) =
     (case itemRegex item of
        None \<Rightarrow> Inl (PatternNotModelled item)
      | Some re \<Rightarrow>
          (let itemIndex = search re (slice text (index namedMatch)
                                       (index namedMatch + length (matched namedMatch)))
           in case itemComponents text namedMatch items of
                Inl e \<Rightarrow> Inl e
              | Inr comps \<Rightarrow>
                  if itemIndex \<noteq> - 1
                  then (let actualIndex = int (index namedMatch) + itemIndex
                        in Inr (\<lparr>name = item, range = (actualIndex, actualIndex + int (length item))\<rparr> # comps))
                  else Inr comps))"

fun namedComponents :: "string \<Rightarrow> rmatch list \<Rightarrow> error + component list" where
  \<comment> \<open>the loop over the export blocks\<close>
  "namedComponents text [] = Inr []"
| "namedComponents text (namedMatch # rest) =
     (case itemComponents text namedMatch
             (exportedItems (case group namedMatch 1 of None \<Rightarrow> [] | Some g \<Rightarrow> g)) of
        Inl e \<Rightarrow> Inl e
      | Inr comps \<Rightarrow>
          (case namedComponents text rest of Inl e \<Rightarrow> Inl e | Inr others \<Rightarrow> Inr (comps @ others)))"

definition directComponent :: "rmatch \<Rightarrow> component" where
  "directComponent directMatch =
     (let name = (case group directMatch 1 of None \<Rightarrow> [] | Some g \<Rightarrow> g);
          nameStartIndex = indexOf (matched directMatch) name (length ''export const '')
      in \<lparr>name = name,
          range = (int (index directMatch) + nameStartIndex,
                   int (index directMatch) + nameStartIndex + int (length name))\<rparr>)"

definition getExportedComponents :: "string \<Rightarrow> error + component list" where
  "getExportedComponents text =
     (case execAll namedExportRegex text of
        None \<Rightarrow> Inl Diverges
      | Some namedMatches \<Rightarrow>
          (case namedComponents text namedMatches of
             Inl e \<Rightarrow> Inl e
           | Inr comps \<Rightarrow>
               (case execAll directExportRegex text of
                  None \<Rightarrow> Inl Diverges
                | Some directMatches \<Rightarrow> Inr (comps @ map directComponent directMatches))))"


section \<open>Files, caches and the editor\<close>

text \<open>
  The files of a workspace have \<open>file\<close> URIs. Such a URI is given by its path, which is
  what \<open>fsPath\<close> returns and what \<open>document.fileName\<close> is for the URI of a document; the
  string of the URI, the key of every cache, is the path after the scheme.
\<close>

datatype uri = Uri (fsPath: string)

definition toString :: "uri \<Rightarrow> string" where
  "toString u = ''file://'' @ fsPath u"

record document =
  uri :: uri
  languageId :: string
  getText :: string

definition document_fileName :: "document \<Rightarrow> string" where
  \<comment> \<open>\<open>document.fileName\<close>\<close>
  "document_fileName doc = fsPath (uri doc)"

text \<open>
  What the extension asks of its host: \<open>fs.statSync(p).mtimeMs\<close> and
  \<open>fs.readFileSync(p, "utf8")\<close> (\<open>None\<close> when the call throws), the workspace folders
  (\<open>None\<close> for \<open>undefined\<close>) and, for each folder, the result of \<open>findFiles\<close> with the
  pattern \<open>**/*.{js,jsx,ts,tsx}\<close> and the exclusion \<open>**/node_modules/**\<close>.
\<close>

record env =
  statSync :: "string \<Rightarrow> nat option"
  readFileSync :: "string \<Rightarrow> string option"
  workspaceFolders :: "string list option"
  findFiles :: "string \<Rightarrow> uri list"

datatype severity = Error | Warning | Information | Hint

record diagnostic =
  diag_range :: "int \<times> int"
  message :: string
  severity :: severity
  source :: string

record state =
  fileContentCache :: "string \<rightharpoonup> (string \<times> nat)"
  importingFilesCache :: "string \<rightharpoonup> uri list"
  componentUsageCache :: "string \<rightharpoonup> (string \<rightharpoonup> string set)"
  diagnosticCollection :: "string \<rightharpoonup> diagnostic list"

definition lastSegment :: "string \<Rightarrow> string" where
  "lastSegment p = rev (takeWhile (\<lambda>c. c \<noteq> CHR ''/'') (rev p))"

definition extname :: "string \<Rightarrow> string" where
  \<comment> \<open>\<open>path.extname\<close> on a POSIX path that does not end in a slash\<close>
  "extname p =
     (let seg = lastSegment p; e = rev (takeWhile (\<lambda>c. c \<noteq> CHR ''.'') (rev seg)) in
      if CHR ''.'' \<notin> set seg \<or> length e + 1 = length seg \<or> seg = ''..'' then []
      else CHR ''.'' # e)"

definition basename :: "string \<Rightarrow> string \<Rightarrow> string" where
  \<comment> \<open>\<open>path.basename(p, ext)\<close> on a POSIX path that does not end in a slash\<close>
  "basename p ext =
     (let seg = lastSegment p in
      if ext \<noteq> [] \<and> length ext \<le> length p \<and> ext = p then []
      else if ext \<noteq> [] \<and> length ext < length seg \<and> suffix ext seg
           then take (length seg - length ext) seg
      else seg)"

definition baseName :: "document \<Rightarrow> string" where
  \<comment> \<open>\<open>path.basename(document.fileName, path.extname(document.fileName))\<close>\<close>
  "baseName doc = basename (document_fileName doc) (extname (document_fileName doc))"

definition invalidateCachesForFile :: "state \<Rightarrow> uri \<Rightarrow> state" where
  "invalidateCachesForFile s fileUri =
     (let fileKey = toString fileUri in
      s\<lparr>fileContentCache := (fileContentCache s)(fileKey := None),
        importingFilesCache := (importingFilesCache s)(fileKey := None),
        componentUsageCache := (componentUsageCache s)(fileKey := None)\<rparr>)"

definition evict :: "state \<Rightarrow> string \<Rightarrow> state" where
  \<comment> \<open>\<open>fileContentCache.delete(fileKey)\<close>\<close>
  "evict s fileKey = s\<lparr>fileContentCache := (fileContentCache s)(fileKey := None)\<rparr>"

definition readFileWithCache :: "env \<Rightarrow> state \<Rightarrow> uri \<Rightarrow> string option \<times> state" where
  \<comment> \<open>the result is \<open>None\<close> for \<open>null\<close>; the \<open>catch\<close> takes both a failing \<open>statSync\<close> and a
     failing \<open>readFileSync\<close>\<close>
  "readFileWithCache env s fileUri =
     (let fileKey = toString fileUri; filePath = fsPath fileUri in
      case statSync env filePath of
        None \<Rightarrow> (None, evict s fileKey)
      | Some mtime \<Rightarrow>
          (case (case fileContentCache s fileKey of
                   None \<Rightarrow> None
                 | Some (content, m) \<Rightarrow> if m = mtime then Some content else None) of
             Some content \<Rightarrow> (Some content, s)
           | None \<Rightarrow>
               (case readFileSync env filePath of
                  None \<Rightarrow> (None, evict s fileKey)
                | Some content \<Rightarrow>
                    (Some content,
                     s\<lparr>fileContentCache := (fileContentCache s)(fileKey \<mapsto> (content, mtime))\<rparr>))))"

definition isJsOrTsFile :: "document \<Rightarrow> bool" where
  "isJsOrTsFile doc =
     (languageId doc \<in> set [''javascript'', ''javascriptreact'', ''typescript'', ''typescriptreact''])"


section \<open>The import graph index\<close>

definition importPattern :: "regex \<Rightarrow> regex" where
  \<comment> \<open>\<open>import\s+(?:\*\s+as\s+\w+|{[^}]*}|\w+)\s+from\s+['"](?:.*\/)?${fileName}(?:\.\w+)?['"]\<close>,
     given the pattern that the file name stands for\<close>
  "importPattern r =
     cat [lit ''import'', Plus isSpace,
          Alt (cat [chr CHR ''*'', Plus isSpace, lit ''as'', Plus isSpace, Plus isWordChar])
            (Alt (cat [chr CHR ''{'', Star (notChar CHR ''}''), chr CHR ''}'']) (Plus isWordChar)),
          Plus isSpace, lit ''from'', Plus isSpace, Atom isQuote,
          Opt (cat [Star isDot, chr CHR ''/'']), r,
          Opt (cat [chr CHR ''.'', Plus isWordChar]), Atom isQuote]"

definition importRegex :: "string \<Rightarrow> regex option" where
  "importRegex fileName = map_option importPattern (fragment fileName)"

definition mightImportFromFile :: "string \<Rightarrow> string \<Rightarrow> error + bool" where
  "mightImportFromFile content fileName =
     (if \<not> str_includes content fileName then Inr False
      else case importRegex fileName of
             None \<Rightarrow> Inl (PatternNotModelled fileName)
           | Some re \<Rightarrow> Inr (test re content))"

fun scanFiles :: "env \<Rightarrow> state \<Rightarrow> string \<Rightarrow> uri list \<Rightarrow> error + (uri list \<times> state)" where
  \<comment> \<open>the loop over \<open>otherFiles\<close>; the result lists the files pushed to \<open>importingFiles\<close>\<close>
  "scanFiles env s fileName [] = Inr ([], s)"
| "scanFiles env s fileName (file # files) =
     (case readFileWithCache env s file of (content, s1) \<Rightarrow>
        (case (case content of
                 None \<Rightarrow> Inr False
               | Some c \<Rightarrow> if c = [] then Inr False else mightImportFromFile c fileName) of
           Inl e \<Rightarrow> Inl e
         | Inr imports \<Rightarrow>
             (case scanFiles env s1 fileName files of
                Inl e \<Rightarrow> Inl e
              | Inr (found, s2) \<Rightarrow> Inr ((if imports then [file] else []) @ found, s2))))"

fun scanFolders :: "env \<Rightarrow> state \<Rightarrow> document \<Rightarrow> string list \<Rightarrow> error + (uri list \<times> state)" where
  \<comment> \<open>the loop over the workspace folders\<close>
  "scanFolders env s doc [] = Inr ([], s)"
| "scanFolders env s doc (folder # folders) =
     (let files = findFiles env folder;
          otherFiles = filter (\<lambda>file. fsPath file \<noteq> document_fileName doc) files
      in case scanFiles env s (baseName doc) otherFiles of
           Inl e \<Rightarrow> Inl e
         | Inr (found, s1) \<Rightarrow>
             (case scanFolders env s1 doc folders of
                Inl e \<Rightarrow> Inl e
              | Inr (others, s2) \<Rightarrow> Inr (found @ others, s2)))"

definition findFilesImportingFromCached :: "env \<Rightarrow> state \<Rightarrow> document \<Rightarrow> error + (uri list \<times> state)" where
  "findFilesImportingFromCached env s doc =
     (let fileKey = toString (uri doc) in
      case importingFilesCache s fileKey of
        Some cached \<Rightarrow> Inr (cached, s)
      | None \<Rightarrow>
          (case workspaceFolders env of
             None \<Rightarrow> Inr ([], s)
           | Some folders \<Rightarrow>
               (case scanFolders env s doc folders of
                  Inl e \<Rightarrow> Inl e
                | Inr (importingFiles, s1) \<Rightarrow>
                    Inr (importingFiles,
                         s1\<lparr>importingFilesCache := (importingFilesCache s1)(fileKey \<mapsto> importingFiles)\<rparr>))))"


section \<open>The usage resolver\<close>

definition namespaceImportPattern :: "regex \<Rightarrow> regex" where
  \<comment> \<open>\<open>import\s+\*\s+as\s+(\w+)\s+from\s*['"](?:.*\/)?${styleFileName}(?:\.\w+)?['"]\<close>,
     given the pattern that the file name stands for\<close>
  "namespaceImportPattern r =
     cat [lit ''import'', Plus isSpace, chr CHR ''*'', Plus isSpace, lit ''as'', Plus isSpace,
          Group 1 (Plus isWordChar), Plus isSpace, lit ''from'', Star isSpace, Atom isQuote,
          Opt (cat [Star isDot, chr CHR ''/'']), r,
          Opt (cat [chr CHR ''.'', Plus isWordChar]), Atom isQuote]"

definition namespaceImportRegex :: "string \<Rightarrow> regex option" where
  "namespaceImportRegex styleFileName = map_option namespaceImportPattern (fragment styleFileName)"

definition usageRegex :: "string option \<Rightarrow> regex" where
  \<comment> \<open>\<open>(?:<|\b)${namespaceAlias}\.(\w+)|(?:<|\b)(\w+)\<close> with an alias, \<open>(?:<|\b)(\w+)\<close>
     without; both with the \<open>g\<close> flag. An alias is a match of \<open>\w+\<close>, so it stands for
     itself in the pattern.\<close>
  "usageRegex namespaceAlias =
     (case namespaceAlias of
        Some alias \<Rightarrow>
          Alt (cat [Alt (chr CHR ''<'') WordB, lit alias, chr CHR ''.'', Group 1 (Plus isWordChar)])
              (cat [Alt (chr CHR ''<'') WordB, Group 2 (Plus isWordChar)])
      | None \<Rightarrow> cat [Alt (chr CHR ''<'') WordB, Group 1 (Plus isWordChar)])"

definition potentialComp :: "rmatch \<Rightarrow> string option" where
  \<comment> \<open>\<open>usageMatch[1] || usageMatch[2]\<close>: an undefined or empty first group gives way to the second\<close>
  "potentialComp usageMatch =
     (case group usageMatch 1 of
        None \<Rightarrow> group usageMatch 2
      | Some g \<Rightarrow> if g = [] then group usageMatch 2 else Some g)"

fun addUsages :: "rmatch list \<Rightarrow> string set \<Rightarrow> string set" where
  \<comment> \<open>the body of the loop over the matches of the usage pattern\<close>
  "addUsages [] usedComponents = usedComponents"
| "addUsages (usageMatch # rest) usedComponents =
     addUsages rest
       (case potentialComp usageMatch of
          None \<Rightarrow> usedComponents
        | Some [] \<Rightarrow> usedComponents
        | Some (c # cs) \<Rightarrow>
            if c = toUpperCase c then insert (c # cs) usedComponents else usedComponents)"

definition namespaceAliasOf :: "string \<Rightarrow> string \<Rightarrow> error + string option" where
  \<comment> \<open>the alias of a namespace import of the style file, if the content has one\<close>
  "namespaceAliasOf content styleFileName =
     (case namespaceImportRegex styleFileName of
        None \<Rightarrow> Inl (PatternNotModelled styleFileName)
      | Some re \<Rightarrow>
          Inr (case exec re content of None \<Rightarrow> None | Some namespaceMatch \<Rightarrow> group namespaceMatch 1))"

definition usedComponentsOf :: "string \<Rightarrow> string \<Rightarrow> error + string set" where
  \<comment> \<open>the set that \<open>getUsedComponentsFromFileCached\<close> computes from the content it has read\<close>
  "usedComponentsOf content styleFileName =
     (case namespaceAliasOf content styleFileName of
        Inl e \<Rightarrow> Inl e
      | Inr namespaceAlias \<Rightarrow>
          (case execAll (usageRegex namespaceAlias) content of
             None \<Rightarrow> Inl Diverges
           | Some usageMatches \<Rightarrow> Inr (addUsages usageMatches {})))"

definition cachedUsage :: "state \<Rightarrow> string \<Rightarrow> string \<Rightarrow> string set option" where
  \<comment> \<open>the entry of \<open>componentUsageCache\<close> for an importing file and a style file name\<close>
  "cachedUsage s importingFileKey styleFileName =
     (case componentUsageCache s importingFileKey of
        None \<Rightarrow> None
      | Some styleUsageMap \<Rightarrow> styleUsageMap styleFileName)"

definition storeUsage :: "state \<Rightarrow> string \<Rightarrow> string \<Rightarrow> string set \<Rightarrow> state" where
  \<comment> \<open>\<open>componentUsageCache.get(importingFileKey).set(styleFileName, usedComponents)\<close>, after
     an empty map was stored for a key that had none\<close>
  "storeUsage s importingFileKey styleFileName usedComponents =
     s\<lparr>componentUsageCache := (componentUsageCache s)(importingFileKey \<mapsto>
         (case componentUsageCache s importingFileKey of
            None \<Rightarrow> Map.empty
          | Some styleUsageMap \<Rightarrow> styleUsageMap)(styleFileName \<mapsto> usedComponents))\<rparr>"

definition getUsedComponentsFromFileCached ::
  "env \<Rightarrow> state \<Rightarrow> uri \<Rightarrow> document \<Rightarrow> error + (string set option \<times> state)" where
  "getUsedComponentsFromFileCached env s importingFileUri styleDocument =
     (let importingFileKey = toString importingFileUri;
          styleFileName = baseName styleDocument
      in case cachedUsage s importingFileKey styleFileName of
           Some cached \<Rightarrow> Inr (Some cached, s)
         | None \<Rightarrow>
             (case readFileWithCache env s importingFileUri of
                (None, s1) \<Rightarrow> Inr (None, s1)
              | (Some content, s1) \<Rightarrow>
                  if content = [] then Inr (None, s1)
                  else (case usedComponentsOf content styleFileName of
                          Inl e \<Rightarrow> Inl e
                        | Inr usedComponents \<Rightarrow>
                            Inr (Some usedComponents,
                                 storeUsage s1 importingFileKey styleFileName usedComponents))))"


section \<open>The orchestrator\<close>

text \<open>
  A check is modelled as one uninterrupted run: the only \<open>await\<close> of
  \<open>checkStyledComponentFile\<close> is in the workspace scan, and no other handler is taken to
  run there. A function that can throw returns a sum, with the error on the left; the
  state is passed in and returned.
\<close>

fun mapSet :: "('k \<times> 'v) list \<Rightarrow> 'k \<Rightarrow> 'v \<Rightarrow> ('k \<times> 'v) list" where
  \<comment> \<open>\<open>Map.prototype.set\<close> on a map kept in insertion order\<close>
  "mapSet [] k v = [(k, v)]"
| "mapSet ((k', v') # kvs) k v = (if k' = k then (k, v) # kvs else (k', v') # mapSet kvs k v)"

fun collectUsage ::
  "env \<Rightarrow> state \<Rightarrow> document \<Rightarrow> uri list \<Rightarrow> (string \<times> string set) list
     \<Rightarrow> error + ((string \<times> string set) list \<times> state)" where
  \<comment> \<open>the loop that fills \<open>usageByFile\<close>\<close>
  "collectUsage env s doc [] usageByFile = Inr (usageByFile, s)"
| "collectUsage env s doc (fileUri # importingFiles) usageByFile =
     (case getUsedComponentsFromFileCached env s fileUri doc of
        Inl e \<Rightarrow> Inl e
      | Inr (None, s1) \<Rightarrow> collectUsage env s1 doc importingFiles usageByFile
      | Inr (Some usedComponents, s1) \<Rightarrow>
          collectUsage env s1 doc importingFiles (mapSet usageByFile (toString fileUri) usedComponents))"

fun isUsed :: "string set list \<Rightarrow> string \<Rightarrow> bool" where
  \<comment> \<open>the loop over \<open>usageByFile.values()\<close>, left at the first set that has the name\<close>
  "isUsed [] componentName = False"
| "isUsed (usedSet # usedSets) componentName =
     (if componentName \<in> usedSet then True else isUsed usedSets componentName)"

definition messageFor :: "string \<Rightarrow> string" where
  "messageFor componentName =
     ''Styled component '' @ [CHR 0x27] @ componentName @ [CHR 0x27] @
     '' is exported but not used anywhere.''"

definition diagnosticFor :: "component \<Rightarrow> diagnostic" where
  "diagnosticFor c =
     \<lparr>diag_range = range c, message = messageFor (name c), severity = Warning,
      source = ''styled-unused-exports''\<rparr>"

definition unusedDiagnostics :: "component list \<Rightarrow> (string \<times> string set) list \<Rightarrow> diagnostic list" where
  \<comment> \<open>the loop over the exported components\<close>
  "unusedDiagnostics exportedComponents usageByFile =
     map diagnosticFor
       (filter (\<lambda>c. \<not> isUsed (map snd usageByFile) (name c)) exportedComponents)"

definition checkStyledComponentFile :: "env \<Rightarrow> state \<Rightarrow> document \<Rightarrow> string \<Rightarrow> error + state" where
  \<comment> \<open>one run of the function with no other event handled between its steps\<close>
  "checkStyledComponentFile env s doc text =
     (case getExportedComponents text of
        Inl e \<Rightarrow> Inl e
      | Inr exportedComponents \<Rightarrow>
          (case findFilesImportingFromCached env s doc of
             Inl e \<Rightarrow> Inl e
           | Inr (importingFiles, s1) \<Rightarrow>
               (case collectUsage env s1 doc importingFiles [] of
                  Inl e \<Rightarrow> Inl e
                | Inr (usageByFile, s2) \<Rightarrow>
                    Inr (s2\<lparr>diagnosticCollection := (diagnosticCollection s2)
                              (toString (uri doc) \<mapsto> unusedDiagnostics exportedComponents usageByFile)\<rparr>))))"

definition checkDocument :: "env \<Rightarrow> state \<Rightarrow> document \<Rightarrow> error + state" where
  "checkDocument env s doc =
     (if \<not> isJsOrTsFile doc then Inr s
      else (let s1 = s\<lparr>diagnosticCollection := (diagnosticCollection s)(toString (uri doc) := None)\<rparr>;
                text = getText doc
            in if isStyledComponentFile text then checkStyledComponentFile env s1 doc text
               else Inr s1))"

definition diagnosticsOf :: "state \<Rightarrow> document \<Rightarrow> diagnostic list" where
  \<comment> \<open>the diagnostics the collection holds for a document, none when it has no entry\<close>
  "diagnosticsOf s doc =
     (case diagnosticCollection s (toString (uri doc)) of None \<Rightarrow> [] | Some ds \<Rightarrow> ds)"

definition onDidSaveTextDocument :: "env \<Rightarrow> state \<Rightarrow> document \<Rightarrow> error + state" where
  \<comment> \<open>the save handler: \<open>scheduleCheck\<close> without a delay checks at once\<close>
  "onDidSaveTextDocument env s doc = checkDocument env (invalidateCachesForFile s (uri doc)) doc"

definition onDidChangeTextDocument :: "state \<Rightarrow> document \<Rightarrow> state" where
  \<comment> \<open>what the change handler does at once; the check it schedules comes 500 ms later\<close>
  "onDidChangeTextDocument s doc = evict s (toString (uri doc))"

definition initialState :: state where
  \<comment> \<open>the caches and the collection after \<open>activate\<close>\<close>
  "initialState = \<lparr>fileContentCache = Map.empty, importingFilesCache = Map.empty,
                    componentUsageCache = Map.empty, diagnosticCollection = Map.empty\<rparr>"


section \<open>Example inputs\<close>

definition tabExportText :: string where
  \<comment> \<open>a direct export with a tab between \<open>export\<close> and \<open>const\<close>\<close>
  "tabExportText = ''export'' @ [CHR 0x09] @ ''const A = styled.div`c`''"

definition spacesExportText :: string where
  \<comment> \<open>a direct export with two spaces between \<open>export\<close> and \<open>const\<close>\<close>
  "spacesExportText = ''export  const A = styled.div`c`''"



definition buttonText :: string where
  "buttonText = ''export const Button = styled.button`color:red;`''"

definition buttonDoc :: document where
  "buttonDoc = \<lparr>uri = Uri ''/w/Button.tsx'', languageId = ''typescriptreact'', getText = buttonText\<rparr>"

definition pageUri :: uri where
  "pageUri = Uri ''/w/Page.tsx''"

definition pageText :: string where
  \<comment> \<open>a page that imports the button and renders it\<close>
  \<open>pageText = ''import { Button } from './Button'; const P = () => <Button />''\<close>

definition soleFileEnv :: "string \<Rightarrow> string \<Rightarrow> env" where
  \<comment> \<open>a workspace with one file\<close>
  "soleFileEnv path content =
     \<lparr>statSync = (\<lambda>p. if p = path then Some 1 else None),
      readFileSync = (\<lambda>p. if p = path then Some content else None),
      workspaceFolders = Some [''/w''],
      findFiles = (\<lambda>folder. [Uri path])\<rparr>"

definition pageEnv :: "nat \<Rightarrow> string \<Rightarrow> env" where
  \<comment> \<open>a workspace with \<open>/w/Button.tsx\<close> and \<open>/w/Page.tsx\<close>, the page with the given mtime
     and content\<close>
  "pageEnv mtime pageContent =
     \<lparr>statSync = (\<lambda>p. if p = ''/w/Page.tsx'' then Some mtime
                      else if p = ''/w/Button.tsx'' then Some 1 else None),
      readFileSync = (\<lambda>p. if p = ''/w/Page.tsx'' then Some pageContent
                          else if p = ''/w/Button.tsx'' then Some buttonText else None),
      workspaceFolders = Some [''/w''],
      findFiles = (\<lambda>folder. [Uri ''/w/Button.tsx'', Uri ''/w/Page.tsx''])\<rparr>"

definition diskEnv :: "string \<Rightarrow> env" where
  "diskEnv pageContent = pageEnv 2 pageContent"

definition cachedPage :: "string \<Rightarrow> nat \<Rightarrow> state" where
  \<comment> \<open>the state in which the content store holds the given content and mtime for the page\<close>
  "cachedPage content mtime =
     initialState\<lparr>fileContentCache := [toString pageUri \<mapsto> (content, mtime)]\<rparr>"

definition buttonChecked :: state where
  \<comment> \<open>the state after the first check of \<open>buttonDoc\<close> in the workspace with the page\<close>
  "buttonChecked =
     \<lparr>fileContentCache = [toString pageUri \<mapsto> (pageText, 2)],
      importingFilesCache = [toString (uri buttonDoc) \<mapsto> [pageUri]],
      componentUsageCache = [toString pageUri \<mapsto> [''Button'' \<mapsto> {''P'', ''Button''}]],
      diagnosticCollection = [toString (uri buttonDoc) \<mapsto> []]\<rparr>"

definition knobDoc :: document where
  \<comment> \<open>the button file after an edit that renames its component\<close>
  "knobDoc = buttonDoc\<lparr>getText := ''export const Knob = styled.button`color:red;`''\<rparr>"

definition knobPageText :: string where
  \<comment> \<open>the page after the same rename\<close>
  \<open>knobPageText = ''import { Knob } from './Button'; const P = () => <Knob />''\<close>


definition knobSaved :: state where
  \<comment> \<open>the state after the save of the renamed button file, the page renamed on disk too\<close>
  "knobSaved =
     \<lparr>fileContentCache = [toString pageUri \<mapsto> (knobPageText, 3)],
      importingFilesCache = [toString (uri buttonDoc) \<mapsto> [pageUri]],
      componentUsageCache = [toString pageUri \<mapsto> [''Button'' \<mapsto> {''P'', ''Button''}]],
      diagnosticCollection = [toString (uri buttonDoc) \<mapsto>
         [diagnosticFor \<lparr>name = ''Knob'', range = (13, 17)\<rparr>]]\<rparr>"

definition importOnlyText :: string where
  \<comment> \<open>a file that imports the button and does nothing with it\<close>
  \<open>importOnlyText = ''import { Button } from './Button';''\<close>







section \<open>Answers of the caches\<close>

text \<open>
  What a state answers when asked, without the state that the question leaves behind: the
  content of a file, the importers of a document, the symbols that a file uses of a
  document.
\<close>

definition storeView :: "env \<Rightarrow> state \<Rightarrow> uri \<Rightarrow> string option" where
  "storeView env s fileUri = fst (readFileWithCache env s fileUri)"

definition importersOf :: "env \<Rightarrow> state \<Rightarrow> document \<Rightarrow> error + uri list" where
  "importersOf env s doc = map_sum id fst (findFilesImportingFromCached env s doc)"

definition usedSymbolsOf :: "env \<Rightarrow> state \<Rightarrow> uri \<Rightarrow> document \<Rightarrow> error + string set option" where
  "usedSymbolsOf env s importingFileUri styleDocument =
     map_sum id fst (getUsedComponentsFromFileCached env s importingFileUri styleDocument)"

definition sameView :: "env \<Rightarrow> state \<Rightarrow> state \<Rightarrow> bool" where
  "sameView env s s' = (storeView env s' = storeView env s)"

definition sameAnswers :: "env \<Rightarrow> document \<Rightarrow> state \<Rightarrow> state \<Rightarrow> bool" where
  "sameAnswers env doc s s' =
     (sameView env s s' \<and>
      (\<lambda>f. usedSymbolsOf env s' f doc) = (\<lambda>f. usedSymbolsOf env s f doc) \<and>
      importersOf env s' doc = importersOf env s doc)"

fun usageFrom ::
  "(uri \<Rightarrow> error + string set option) \<Rightarrow> uri list \<Rightarrow> (string \<times> string set) list
     \<Rightarrow> error + (string \<times> string set) list" where
  \<comment> \<open>the map \<open>usageByFile\<close> that the loop of the orchestrator builds from given answers\<close>
  "usageFrom answer [] usageByFile = Inr usageByFile"
| "usageFrom answer (fileUri # importingFiles) usageByFile =
     (case answer fileUri of
        Inl e \<Rightarrow> Inl e
      | Inr None \<Rightarrow> usageFrom answer importingFiles usageByFile
      | Inr (Some usedComponents) \<Rightarrow>
          usageFrom answer importingFiles (mapSet usageByFile (toString fileUri) usedComponents))"

definition importsFrom :: "env \<Rightarrow> state \<Rightarrow> string \<Rightarrow> uri \<Rightarrow> error + bool" where
  \<comment> \<open>the test of the loop over \<open>otherFiles\<close>, on the content that the store answers\<close>
  "importsFrom env s fileName fileUri =
     (case storeView env s fileUri of
        None \<Rightarrow> Inr False
      | Some content \<Rightarrow> if content = [] then Inr False else mightImportFromFile content fileName)"

fun importersAmong :: "(uri \<Rightarrow> error + bool) \<Rightarrow> uri list \<Rightarrow> error + uri list" where
  \<comment> \<open>the files of a list that pass a test, up to the first error of the test\<close>
  "importersAmong imports [] = Inr []"
| "importersAmong imports (fileUri # files) =
     (case imports fileUri of
        Inl e \<Rightarrow> Inl e
      | Inr b \<Rightarrow>
          (case importersAmong imports files of
             Inl e \<Rightarrow> Inl e
           | Inr found \<Rightarrow> Inr ((if b then [fileUri] else []) @ found)))"

fun importersInFolders ::
  "env \<Rightarrow> (uri \<Rightarrow> error + bool) \<Rightarrow> document \<Rightarrow> string list \<Rightarrow> error + uri list" where
  "importersInFolders env imports doc [] = Inr []"
| "importersInFolders env imports doc (folder # folders) =
     (case importersAmong imports
             (filter (\<lambda>fileUri. fsPath fileUri \<noteq> document_fileName doc) (findFiles env folder)) of
        Inl e \<Rightarrow> Inl e
      | Inr found \<Rightarrow>
          (case importersInFolders env imports doc folders of
             Inl e \<Rightarrow> Inl e
           | Inr others \<Rightarrow> Inr (found @ others)))"

definition frame :: "env \<Rightarrow> state \<Rightarrow> state \<Rightarrow> bool" where
  \<comment> \<open>the second state differs from the first in the content store only, and answers the
     same content for every file\<close>
  "frame env s s' =
     (sameView env s s' \<and> importingFilesCache s' = importingFilesCache s \<and>
      componentUsageCache s' = componentUsageCache s \<and>
      diagnosticCollection s' = diagnosticCollection s)"


section \<open>The import pattern in the words of the specification\<close>






section \<open>Positions of the matcher\<close>

definition lastOr :: "char option \<Rightarrow> string \<Rightarrow> char option" where
  \<comment> \<open>the character before the current position after the matcher has gone over \<open>mid\<close>\<close>
  "lastOr prev mid = (if mid = [] then prev else Some (last mid))"

definition tokenAfter :: "char option \<Rightarrow> string \<Rightarrow> string \<Rightarrow> bool" where
  \<comment> \<open>\<open>g\<close> is a whole word of \<open>rest\<close>, a maximal run of word characters, when \<open>prev\<close> is the
     character before \<open>rest\<close>\<close>
  "tokenAfter prev rest g =
     (\<exists>lead post. rest = lead @ g @ post \<and> g \<noteq> [] \<and> (\<forall>c \<in> set g. isWordChar c) \<and>
        \<not> wordAfter post \<and> \<not> wordBefore (lastOr prev lead))"

definition occursInUsageShape :: "string \<Rightarrow> string option \<Rightarrow> string \<Rightarrow> bool" where
  \<comment> \<open>Follows the specification: the token occurs in the content in one of the bare
     shapes \<open>Token(\<close>, \<open><Token\<close>, \<open>Token{\<close> or, with a namespace alias, in the qualified shape
     \<open>Alias.Token\<close>.\<close>
  "occursInUsageShape content namespaceAlias tok =
     (str_includes content (tok @ ''('') \<or> str_includes content (''<'' @ tok) \<or>
      str_includes content (tok @ ''{'') \<or>
      (case namespaceAlias of
         None \<Rightarrow> False
       | Some alias \<Rightarrow> str_includes content (alias @ ''.'' @ tok)))"


section \<open>Aliased export items and sets of words\<close>



definition wordsOnly :: "string set \<Rightarrow> bool" where
  "wordsOnly used = (\<forall>tok \<in> used. list_all isWordChar tok)"

definition usageCacheWordsOnly :: "state \<Rightarrow> bool" where
  \<comment> \<open>every used-symbol set in the usage cache holds words only; so it is in every state
     that the extension reaches, see \<open>initial_words\<close> and \<open>check_keeps_words\<close>\<close>
  "usageCacheWordsOnly s =
     (\<forall>importingFileKey styleFileName used.
        cachedUsage s importingFileKey styleFileName = Some used \<longrightarrow> wordsOnly used)"


section \<open>Patterns that match the empty string\<close>

fun nullable :: "regex \<Rightarrow> bool" where
  \<comment> \<open>the pattern can match the empty string\<close>
  "nullable (Atom p) = False"
| "nullable (Star p) = True"
| "nullable (Plus p) = False"
| "nullable (LazyStar p) = True"
| "nullable (Opt r) = True"
| "nullable (Alt a b) = (nullable a \<or> nullable b)"
| "nullable (Seq a b) = (nullable a \<and> nullable b)"
| "nullable Eps = True"
| "nullable (Group n r) = nullable r"
| "nullable WordB = True"
| "nullable Bol = True"
| "nullable Eol = True"


section \<open>Strings: facts\<close>



lemma toString_inj [simp]: "(toString u = toString v) = (u = v)"
  by (cases u, cases v) (simp add: toString_def)


section \<open>The pre-filter\<close>

lemma tab_text_rejected: "\<not> isStyledComponentFile tabExportText"
  by code_simp

lemma spaces_text_rejected: "\<not> isStyledComponentFile spacesExportText"
  by code_simp

lemma tab_text_exports: "getExportedComponents tabExportText = Inr [\<lparr>name = ''A'', range = (13, 14)\<rparr>]"
  by code_simp

lemma spaces_text_exports:
  "getExportedComponents spacesExportText = Inr [\<lparr>name = ''A'', range = (14, 15)\<rparr>]"
  by code_simp

lemma check_rejected:
  assumes "isJsOrTsFile doc" and "\<not> isStyledComponentFile (getText doc)"
  shows "checkDocument env s doc =
           Inr (s\<lparr>diagnosticCollection := (diagnosticCollection s)(toString (uri doc) := None)\<rparr>)"
  using assms by (simp add: checkDocument_def)

text \<open>
  C10. There are texts with a direct export declaration that the extractor's pattern
  matches and the pre-filter rejects: \<open>export\<close> and \<open>const\<close> separated by a tab, or by two
  spaces, before a styled-tag template. The extractor finds the component \<open>A\<close> in both, the
  pre-filter answers no, and a check of a TypeScript document with such a text ends with
  no diagnostics for the document, whatever the workspace and the caches are.
\<close>

theorem prefilter_rejects_matching_export:
  "getExportedComponents tabExportText = Inr [\<lparr>name = ''A'', range = (13, 14)\<rparr>] \<and>
   \<not> isStyledComponentFile tabExportText \<and>
   checkDocument env s \<lparr>uri = u, languageId = ''typescript'', getText = tabExportText\<rparr> =
     Inr (s\<lparr>diagnosticCollection := (diagnosticCollection s)(toString u := None)\<rparr>) \<and>
   getExportedComponents spacesExportText = Inr [\<lparr>name = ''A'', range = (14, 15)\<rparr>] \<and>
   \<not> isStyledComponentFile spacesExportText \<and>
   checkDocument env s \<lparr>uri = u, languageId = ''typescript'', getText = spacesExportText\<rparr> =
     Inr (s\<lparr>diagnosticCollection := (diagnosticCollection s)(toString u := None)\<rparr>)"
proof -
  have js: "isJsOrTsFile \<lparr>uri = u, languageId = ''typescript'', getText = t\<rparr>" for t
    by (simp add: isJsOrTsFile_def)
  show ?thesis
    using tab_text_exports tab_text_rejected spaces_text_exports spaces_text_rejected
      check_rejected [OF js, of tabExportText env s] check_rejected [OF js, of spacesExportText env s]
    by simp
qed

theorem prefilter_rejects_matching_export_witness:
  "getExportedComponents tabExportText = Inr [\<lparr>name = ''A'', range = (13, 14)\<rparr>] \<and>
   \<not> isStyledComponentFile tabExportText \<and>
   checkDocument (soleFileEnv ''/w/A.ts'' tabExportText) initialState
       \<lparr>uri = Uri ''/w/A.ts'', languageId = ''typescript'', getText = tabExportText\<rparr> =
     Inr (initialState\<lparr>diagnosticCollection :=
            (diagnosticCollection initialState)(toString (Uri ''/w/A.ts'') := None)\<rparr>) \<and>
   getExportedComponents spacesExportText = Inr [\<lparr>name = ''A'', range = (14, 15)\<rparr>] \<and>
   \<not> isStyledComponentFile spacesExportText \<and>
   checkDocument (soleFileEnv ''/w/A.ts'' tabExportText) initialState
       \<lparr>uri = Uri ''/w/A.ts'', languageId = ''typescript'', getText = spacesExportText\<rparr> =
     Inr (initialState\<lparr>diagnosticCollection :=
            (diagnosticCollection initialState)(toString (Uri ''/w/A.ts'') := None)\<rparr>)"
  by (rule prefilter_rejects_matching_export [of "soleFileEnv ''/w/A.ts'' tabExportText" initialState "Uri ''/w/A.ts''"])




section \<open>The content store\<close>

lemma readFileWithCache_stat_fails:
  "statSync env (fsPath fileUri) = None \<Longrightarrow>
   readFileWithCache env s fileUri = (None, evict s (toString fileUri))"
  by (simp add: readFileWithCache_def)

lemma readFileWithCache_hit:
  "statSync env (fsPath fileUri) = Some mtime \<Longrightarrow>
   fileContentCache s (toString fileUri) = Some (content, mtime) \<Longrightarrow>
   readFileWithCache env s fileUri = (Some content, s)"
  by (simp add: readFileWithCache_def)

lemma readFileWithCache_miss:
  "statSync env (fsPath fileUri) = Some mtime \<Longrightarrow>
   \<forall>c. fileContentCache s (toString fileUri) \<noteq> Some (c, mtime) \<Longrightarrow>
   readFileWithCache env s fileUri =
     (case readFileSync env (fsPath fileUri) of
        None \<Rightarrow> (None, evict s (toString fileUri))
      | Some content \<Rightarrow>
          (Some content,
           s\<lparr>fileContentCache := (fileContentCache s)(toString fileUri \<mapsto> (content, mtime))\<rparr>))"
  by (auto simp: readFileWithCache_def Let_def split: option.splits)

text \<open>
  C8. After \<open>invalidateCachesForFile\<close> for a file, the next read of the file answers what
  is on disk (nothing when the file cannot be read), whatever the content store held for
  it. On any read of a file that \<open>statSync\<close> finds: when the store holds an entry with the
  file's current mtime, the read answers the stored content and leaves the state as it is,
  whatever \<open>readFileSync\<close> would return; when it holds no such entry and \<open>readFileSync\<close>
  succeeds, the read answers the content read and stores it with the current mtime.
\<close>

theorem content_store_read:
  "fst (readFileWithCache env (invalidateCachesForFile s fileUri) fileUri) =
     (case statSync env (fsPath fileUri) of
        None \<Rightarrow> None
      | Some mtime \<Rightarrow> readFileSync env (fsPath fileUri)) \<and>
   (statSync env (fsPath fileUri) = Some mtime \<and>
    fileContentCache s (toString fileUri) = Some (cached, mtime) \<longrightarrow>
      (\<forall>disk. readFileWithCache (env\<lparr>readFileSync := disk\<rparr>) s fileUri = (Some cached, s))) \<and>
   (statSync env (fsPath fileUri) = Some mtime \<and>
    (\<forall>c. fileContentCache s (toString fileUri) \<noteq> Some (c, mtime)) \<and>
    readFileSync env (fsPath fileUri) = Some content \<longrightarrow>
      readFileWithCache env s fileUri =
        (Some content,
         s\<lparr>fileContentCache := (fileContentCache s)(toString fileUri \<mapsto> (content, mtime))\<rparr>))"
proof (intro conjI impI allI)
  show "fst (readFileWithCache env (invalidateCachesForFile s fileUri) fileUri) =
     (case statSync env (fsPath fileUri) of
        None \<Rightarrow> None
      | Some mtime \<Rightarrow> readFileSync env (fsPath fileUri))"
    by (simp add: readFileWithCache_def invalidateCachesForFile_def Let_def split: option.splits)
next
  fix disk
  assume "statSync env (fsPath fileUri) = Some mtime \<and>
    fileContentCache s (toString fileUri) = Some (cached, mtime)"
  then show "readFileWithCache (env\<lparr>readFileSync := disk\<rparr>) s fileUri = (Some cached, s)"
    by (simp add: readFileWithCache_hit)
next
  assume "statSync env (fsPath fileUri) = Some mtime \<and>
    (\<forall>c. fileContentCache s (toString fileUri) \<noteq> Some (c, mtime)) \<and>
    readFileSync env (fsPath fileUri) = Some content"
  then show "readFileWithCache env s fileUri =
        (Some content,
         s\<lparr>fileContentCache := (fileContentCache s)(toString fileUri \<mapsto> (content, mtime))\<rparr>)"
    by (simp add: readFileWithCache_miss)
qed

theorem content_store_read_witness:
  "statSync (diskEnv ''new'') (fsPath pageUri) = Some 2 \<and>
   fileContentCache (cachedPage ''cached'' 2) (toString pageUri) = Some (''cached'', 2) \<and>
   readFileWithCache ((diskEnv ''new'')\<lparr>readFileSync := (\<lambda>p. None)\<rparr>) (cachedPage ''cached'' 2) pageUri =
     (Some ''cached'', cachedPage ''cached'' 2) \<and>
   (\<forall>c. fileContentCache (cachedPage ''old'' 1) (toString pageUri) \<noteq> Some (c, 2)) \<and>
   readFileSync (diskEnv ''new'') (fsPath pageUri) = Some ''new'' \<and>
   readFileWithCache (diskEnv ''new'') (cachedPage ''old'' 1) pageUri =
     (Some ''new'',
      (cachedPage ''old'' 1)\<lparr>fileContentCache :=
         (fileContentCache (cachedPage ''old'' 1))(toString pageUri \<mapsto> (''new'', 2))\<rparr>) \<and>
   fst (readFileWithCache (diskEnv ''new'') (invalidateCachesForFile (cachedPage ''old'' 2) pageUri) pageUri) =
     Some ''new''"
proof -
  have a: "statSync (diskEnv ''new'') (fsPath pageUri) = Some 2"
    by (simp add: diskEnv_def pageEnv_def pageUri_def)
  have b: "fileContentCache (cachedPage ''cached'' 2) (toString pageUri) = Some (''cached'', 2)"
    by (simp add: cachedPage_def)
  have c: "\<forall>c. fileContentCache (cachedPage ''old'' 1) (toString pageUri) \<noteq> Some (c, 2)"
    by (simp add: cachedPage_def)
  have d: "readFileSync (diskEnv ''new'') (fsPath pageUri) = Some ''new''"
    by (simp add: diskEnv_def pageEnv_def pageUri_def)
  show ?thesis
    using a b c d
      content_store_read [of "diskEnv ''new''" "cachedPage ''cached'' 2" pageUri 2 "''cached''" "''new''"]
      content_store_read [of "diskEnv ''new''" "cachedPage ''old'' 1" pageUri 2 "''cached''" "''new''"]
      content_store_read [of "diskEnv ''new''" "cachedPage ''old'' 2" pageUri 2 "''cached''" "''new''"]
    by simp
qed



section \<open>The matcher: where a match starts and ends\<close>

lemma lastOr_simps [simp]:
  "lastOr p [] = p" "lastOr p (xs @ [c]) = Some c" "lastOr p (c # cs) = lastOr (Some c) cs"
  "lastOr (lastOr p xs) ys = lastOr p (xs @ ys)"
  by (auto simp: lastOr_def)

lemma runs_nonempty [simp]: "runs p (prev, rest, caps) \<noteq> []"
  by (cases rest) auto

lemma runs_elem:
  "x \<in> set (runs p (prev, rest, caps)) \<Longrightarrow>
   \<exists>mid rest'. rest = mid @ rest' \<and> x = (lastOr prev mid, rest', caps) \<and> (\<forall>c \<in> set mid. p c)"
proof (induction rest arbitrary: prev)
  case Nil
  then show ?case by simp
next
  case (Cons c cs)
  show ?case
  proof (cases "x = (prev, c # cs, caps)")
    case True
    then show ?thesis by (rule_tac x = "[]" in exI) simp
  next
    case False
    then have pc: "p c" and "x \<in> set (runs p (Some c, cs, caps))"
      using Cons.prems by (auto split: if_splits)
    then obtain mid rest' where "cs = mid @ rest'" "x = (lastOr (Some c) mid, rest', caps)"
      "\<forall>c \<in> set mid. p c"
      using Cons.IH by blast
    then show ?thesis using pc by (rule_tac x = "c # mid" in exI) simp
  qed
qed


lemma runs_last:
  "last (runs p (prev, rest, caps)) = (lastOr prev (takeWhile p rest), dropWhile p rest, caps)"
  by (induction rest arbitrary: prev) auto

lemma runs_tl_Nil: "(tl (runs p (prev, rest, caps)) = []) = (takeWhile p rest = [])"
  by (cases rest) auto

lemma ms_Plus_hd:
  "ms (Plus p) (prev, rest, caps) = x # xs \<Longrightarrow>
   takeWhile p rest \<noteq> [] \<and> x = (Some (last (takeWhile p rest)), dropWhile p rest, caps)"
proof -
  assume a: "ms (Plus p) (prev, rest, caps) = x # xs"
  let ?r = "runs p (prev, rest, caps)"
  have t: "tl ?r \<noteq> []" using a by auto
  then have n: "takeWhile p rest \<noteq> []" by (simp add: runs_tl_Nil)
  have "x = hd (rev (tl ?r))" using a by simp
  also have "\<dots> = last (tl ?r)" using t by (simp add: hd_rev)
  also have "\<dots> = last ?r" using t by (metis last_tl list.sel(2))
  finally show ?thesis using n by (simp add: runs_last lastOr_def)
qed

lemma ms_pos:
  "(prev', rest', caps') \<in> set (ms r (prev, rest, caps)) \<Longrightarrow>
   \<exists>mid. rest = mid @ rest' \<and> prev' = lastOr prev mid"
proof (induction r arbitrary: prev rest caps prev' rest' caps')
  case (Atom p)
  then show ?case
    by (cases rest) (auto split: if_splits intro!: exI [of _ "[hd rest]"])
next
  case (Star p)
  then show ?case using runs_elem [of "(prev', rest', caps')" p prev rest caps] by auto
next
  case (Plus p)
  then have "(prev', rest', caps') \<in> set (runs p (prev, rest, caps))"
    by (cases "runs p (prev, rest, caps)") auto
  then show ?case using runs_elem [of "(prev', rest', caps')" p prev rest caps] by auto
next
  case (LazyStar p)
  then show ?case using runs_elem [of "(prev', rest', caps')" p prev rest caps] by auto
next
  case (Opt r)
  then consider "(prev', rest', caps') \<in> set (ms r (prev, rest, caps))"
    | "(prev', rest', caps') = (prev, rest, caps)"
    by auto
  then show ?case
  proof cases
    case 1
    then show ?thesis by (rule Opt.IH)
  next
    case 2
    then show ?thesis by (rule_tac x = "[]" in exI) simp
  qed
next
  case (Alt a b)
  then consider "(prev', rest', caps') \<in> set (ms a (prev, rest, caps))"
    | "(prev', rest', caps') \<in> set (ms b (prev, rest, caps))"
    by auto
  then show ?case
  proof cases
    case 1
    then show ?thesis by (rule Alt.IH(1))
  next
    case 2
    then show ?thesis by (rule Alt.IH(2))
  qed
next
  case (Seq a b)
  then obtain y where y: "y \<in> set (ms a (prev, rest, caps))"
    and x: "(prev', rest', caps') \<in> set (ms b y)"
    by auto
  obtain p1 r1 c1 where y': "y = (p1, r1, c1)" by (cases y) auto
  obtain m1 where 1: "rest = m1 @ r1" "p1 = lastOr prev m1"
    using Seq.IH(1) y y' by blast
  obtain m2 where 2: "r1 = m2 @ rest'" "prev' = lastOr p1 m2"
    using Seq.IH(2) x y' by blast
  show ?case using 1 2 by (rule_tac x = "m1 @ m2" in exI) simp
next
  case Eps
  then show ?case by (rule_tac x = "[]" in exI) simp
next
  case (Group n r)
  then obtain c where "(prev', rest', c) \<in> set (ms r (prev, rest, caps))"
    by auto
  then show ?case by (rule Group.IH)
next
  case WordB
  then show ?case by (rule_tac x = "[]" in exI) (simp split: if_splits)
next
  case Bol
  then show ?case by (rule_tac x = "[]" in exI) (simp split: if_splits)
next
  case Eol
  then show ?case by (rule_tac x = "[]" in exI) (simp split: if_splits)
qed

lemma scan_pos:
  "scan r prev rest = Some (start, st) \<Longrightarrow>
   \<exists>pre sts. rest = pre @ start \<and> ms r (lastOr prev pre, start, []) = st # sts"
proof (induction rest arbitrary: prev)
  case Nil
  then show ?case by (auto split: list.splits)
next
  case (Cons c cs)
  show ?case
  proof (cases "ms r (prev, c # cs, [])")
    case Nil
    then have "scan r (Some c) cs = Some (start, st)" using Cons.prems by simp
    then obtain pre sts where "cs = pre @ start" "ms r (lastOr (Some c) pre, start, []) = st # sts"
      using Cons.IH by blast
    then show ?thesis by (rule_tac x = "c # pre" in exI) simp
  next
    case (Cons a list)
    then show ?thesis using Cons.prems by (rule_tac x = "[]" in exI) auto
  qed
qed

lemma execLoop_pos:
  "execLoop r prev rest = Some found \<Longrightarrow> (start, st) \<in> set found \<Longrightarrow>
   \<exists>pre sts. rest = pre @ start \<and> ms r (lastOr prev pre, start, []) = st # sts"
proof (induction r prev rest arbitrary: found rule: execLoop.induct)
  case (1 r prev rest)
  show ?case
  proof (cases "scan r prev rest")
    case None
    then show ?thesis using "1.prems" by simp
  next
    case (Some m)
    obtain start1 prev' rest' caps where m: "m = (start1, (prev', rest', caps))"
      by (cases m) auto
    have lt: "length rest' < length rest"
      using "1.prems"(1) Some m by (auto split: if_splits)
    obtain more where more: "execLoop r prev' rest' = Some more"
      and found: "found = (start1, (prev', rest', caps)) # more"
      using "1.prems"(1) Some m lt by auto
    obtain pre1 sts1 where p1: "rest = pre1 @ start1"
      "ms r (lastOr prev pre1, start1, []) = (prev', rest', caps) # sts1"
      using scan_pos Some m by blast
    show ?thesis
    proof (cases "(start, st) = (start1, (prev', rest', caps))")
      case True
      then show ?thesis using p1 by blast
    next
      case False
      then have "(start, st) \<in> set more" using "1.prems"(2) found by auto
      then obtain pre sts where p: "rest' = pre @ start" "ms r (lastOr prev' pre, start, []) = st # sts"
        using "1.IH" [OF Some m [symmetric] _ _ lt more] by (metis prod.collapse)
      have "(prev', rest', caps) \<in> set (ms r (lastOr prev pre1, start1, []))"
        using p1(2) by simp
      then obtain mid where mid: "start1 = mid @ rest'" "prev' = lastOr (lastOr prev pre1) mid"
        using ms_pos by blast
      show ?thesis
        using p p1 mid by (rule_tac x = "pre1 @ mid @ pre" in exI) (simp flip: lastOr_simps(4))
    qed
  qed
qed



section \<open>The first match of the usage pattern\<close>

lemma concat_map_hd:
  "concat (map f xs) = y # ys \<Longrightarrow> \<exists>x \<in> set xs. \<exists>zs. f x = y # zs"
  by (induction xs) (auto simp: append_eq_Cons_conv)

lemma ms_cat_Nil [simp]: "ms (cat []) st = [st]"
  by (simp add: cat_def)

lemma ms_cat_Cons: "ms (cat (r # rs)) st = concat (map (ms (cat rs)) (ms r st))"
  by (simp add: cat_def)

lemma ms_cat_single [simp]: "ms (cat [r]) st = ms r st"
proof -
  have "ms Eps = (\<lambda>st. [st])" by (rule ext) simp
  then show ?thesis by (simp add: cat_def)
qed

lemma ms_cat_hd:
  "ms (cat (r # rs)) st = y # ys \<Longrightarrow> \<exists>x \<in> set (ms r st). \<exists>zs. ms (cat rs) x = y # zs"
  unfolding ms_cat_Cons by (rule concat_map_hd)

lemma ms_chr_elem:
  "x \<in> set (ms (chr c) (prev, rest, caps)) \<Longrightarrow> \<exists>rest'. rest = c # rest' \<and> x = (Some c, rest', caps)"
  by (cases rest) (auto simp: chr_def split: if_splits)

lemma ms_lit:
  "ms (lit w) (prev, rest, caps) =
     (if prefix w rest then [(lastOr prev w, drop (length w) rest, caps)] else [])"
proof (induction w arbitrary: prev rest)
  case Nil
  show ?case by (simp add: lit_def)
next
  case (Cons c w)
  have "ms (lit (c # w)) (prev, rest, caps) =
          concat (map (ms (lit w)) (ms (chr c) (prev, rest, caps)))"
    by (simp add: lit_def cat_def)
  then show ?case
    using Cons.IH by (cases rest) (auto simp: chr_def)
qed

lemma ms_lit_elem:
  "x \<in> set (ms (lit w) (prev, rest, caps)) \<Longrightarrow>
   \<exists>rest'. rest = w @ rest' \<and> x = (lastOr prev w, rest', caps)"
  by (auto simp: ms_lit prefix_def split: if_splits)

lemma ms_lead_elem:
  "x \<in> set (ms (Alt (chr CHR ''<'') WordB) (prev, rest, caps)) \<Longrightarrow>
   (\<exists>rest'. rest = CHR ''<'' # rest' \<and> x = (Some CHR ''<'', rest', caps)) \<or>
   (x = (prev, rest, caps) \<and> wordBefore prev \<noteq> wordAfter rest)"
  by (cases rest) (auto simp: chr_def split: if_splits)

lemma ms_Group_Plus_hd:
  "ms (Group n (Plus p)) (prev, rest, caps) = x # xs \<Longrightarrow>
   takeWhile p rest \<noteq> [] \<and>
   x = (Some (last (takeWhile p rest)), dropWhile p rest, (n, takeWhile p rest) # caps)"
proof -
  assume a: "ms (Group n (Plus p)) (prev, rest, caps) = x # xs"
  then obtain y ys where y: "ms (Plus p) (prev, rest, caps) = y # ys"
    by (cases "ms (Plus p) (prev, rest, caps)") auto
  have t: "takeWhile p rest \<noteq> []"
    and y': "y = (Some (last (takeWhile p rest)), dropWhile p rest, caps)"
    using ms_Plus_hd [OF y] by simp_all
  have "length rest - length (dropWhile p rest) = length (takeWhile p rest)"
    by (metis add_diff_cancel_right' length_append takeWhile_dropWhile_id)
  then have "take (length rest - length (dropWhile p rest)) rest = takeWhile p rest"
    by (metis append_eq_conv_conj takeWhile_dropWhile_id)
  then show ?thesis using a y y' t by auto
qed

lemma token_run:
  assumes "takeWhile isWordChar r \<noteq> []" and "rest = lead @ r" and "\<not> wordBefore (lastOr prev lead)"
  shows "tokenAfter prev rest (takeWhile isWordChar r)"
proof -
  have "\<not> wordAfter (dropWhile isWordChar r)"
    by (induction r) (auto simp: wordAfter_def)
  moreover have "\<forall>c \<in> set (takeWhile isWordChar r). isWordChar c"
    by (auto dest: set_takeWhileD)
  moreover have "rest = lead @ takeWhile isWordChar r @ dropWhile isWordChar r"
    using assms(2) by simp
  ultimately show ?thesis
    unfolding tokenAfter_def using assms(1,3) by blast
qed

lemma not_word_lt [simp]: "\<not> isWordChar CHR ''<''" "\<not> isWordChar CHR ''.''"
  by (simp_all add: isWordChar_def)

lemma wordAfter_takeWhile: "takeWhile isWordChar r \<noteq> [] \<Longrightarrow> wordAfter r"
  by (cases r) (auto simp: wordAfter_def split: if_splits)

lemma usage_plain_hd:
  assumes "ms (cat [Alt (chr CHR ''<'') WordB, Group n (Plus isWordChar)]) (prev, rest, []) = st # sts"
  shows "\<exists>g. snd (snd st) = [(n, g)] \<and> tokenAfter prev rest g"
proof -
  obtain x zs where x: "x \<in> set (ms (Alt (chr CHR ''<'') WordB) (prev, rest, []))"
    and z: "ms (cat [Group n (Plus isWordChar)]) x = st # zs"
    using ms_cat_hd [OF assms] by blast
  from ms_lead_elem [OF x] show ?thesis
  proof
    assume "\<exists>rest'. rest = CHR ''<'' # rest' \<and> x = (Some CHR ''<'', rest', [])"
    then obtain rest' where r: "rest = CHR ''<'' # rest'" "x = (Some CHR ''<'', rest', [])"
      by blast
    have h: "takeWhile isWordChar rest' \<noteq> []"
      "st = (Some (last (takeWhile isWordChar rest')), dropWhile isWordChar rest',
             [(n, takeWhile isWordChar rest')])"
      using ms_Group_Plus_hd [of n isWordChar "Some CHR ''<''" rest' "[]" st zs] z r by simp_all
    have "tokenAfter prev rest (takeWhile isWordChar rest')"
      using h(1) r(1) by (intro token_run [where lead = "''<''"]) (simp_all add: wordBefore_def)
    then show ?thesis using h(2) by simp
  next
    assume a: "x = (prev, rest, []) \<and> wordBefore prev \<noteq> wordAfter rest"
    have h: "takeWhile isWordChar rest \<noteq> []"
      "st = (Some (last (takeWhile isWordChar rest)), dropWhile isWordChar rest,
             [(n, takeWhile isWordChar rest)])"
      using ms_Group_Plus_hd [of n isWordChar prev rest "[]" st zs] z a by simp_all
    have "\<not> wordBefore prev" using a wordAfter_takeWhile [OF h(1)] by simp
    then have "tokenAfter prev rest (takeWhile isWordChar rest)"
      using h(1) by (intro token_run [where lead = "[]"]) simp_all
    then show ?thesis using h(2) by simp
  qed
qed

lemma usage_alias_hd:
  assumes "ms (cat [Alt (chr CHR ''<'') WordB, lit alias, chr CHR ''.'', Group n (Plus isWordChar)])
             (prev, rest, []) = st # sts"
  shows "\<exists>g. snd (snd st) = [(n, g)] \<and> tokenAfter prev rest g"
proof -
  obtain x1 z1 where x1: "x1 \<in> set (ms (Alt (chr CHR ''<'') WordB) (prev, rest, []))"
    and 1: "ms (cat [lit alias, chr CHR ''.'', Group n (Plus isWordChar)]) x1 = st # z1"
    using ms_cat_hd [OF assms] by blast
  obtain p1 r1 where s1: "x1 = (p1, r1, [])" and l1: "\<exists>l1. rest = l1 @ r1"
    using ms_lead_elem [OF x1] by (auto intro: exI [of _ "''<''"])
  obtain x2 z2 where x2: "x2 \<in> set (ms (lit alias) (p1, r1, []))"
    and 2: "ms (cat [chr CHR ''.'', Group n (Plus isWordChar)]) x2 = st # z2"
    using ms_cat_hd [OF 1] s1 by blast
  obtain r2 where s2: "r1 = alias @ r2" "x2 = (lastOr p1 alias, r2, [])"
    using ms_lit_elem [OF x2] by blast
  obtain x3 z3 where x3: "x3 \<in> set (ms (chr CHR ''.'') (lastOr p1 alias, r2, []))"
    and 3: "ms (cat [Group n (Plus isWordChar)]) x3 = st # z3"
    using ms_cat_hd [OF 2] s2 by blast
  obtain r3 where s3: "r2 = CHR ''.'' # r3" "x3 = (Some CHR ''.'', r3, [])"
    using ms_chr_elem [OF x3] by blast
  have h: "takeWhile isWordChar r3 \<noteq> []"
    "st = (Some (last (takeWhile isWordChar r3)), dropWhile isWordChar r3,
           [(n, takeWhile isWordChar r3)])"
    using ms_Group_Plus_hd [of n isWordChar "Some CHR ''.''" r3 "[]" st z3] 3 s3 by simp_all
  obtain l1 where "rest = l1 @ r1" using l1 by blast
  then have e: "rest = (l1 @ alias @ ''.'') @ r3" using s2 s3 by simp
  have "tokenAfter prev rest (takeWhile isWordChar r3)"
    by (rule token_run [OF h(1) e]) (simp add: lastOr_def wordBefore_def)
  then show ?thesis using h(2) by simp
qed



section \<open>The extractor on an export block with an aliased item\<close>












































section \<open>The loops over the matches end\<close>

text \<open>
  No pattern of the extension matches the empty string, so every \<open>exec\<close> loop ends: the
  extractor and the resolver never answer \<open>Diverges\<close>, and the resolver answers a set for
  every style file name within the modelled patterns.
\<close>

lemma runs_tl_shorter:
  assumes "(prev', rest', caps') \<in> set (tl (runs p (prev, rest, caps)))"
  shows "length rest' < length rest"
proof (cases rest)
  case Nil
  then show ?thesis using assms by simp
next
  case (Cons c cs)
  have "(prev', rest', caps') \<in> set (runs p (Some c, cs, caps))"
    using Cons assms by (auto split: if_splits)
  then obtain mid where "cs = mid @ rest'"
    using runs_elem by blast
  then show ?thesis using Cons by simp
qed

lemma ms_length:
  "(prev', rest', caps') \<in> set (ms r (prev, rest, caps)) \<Longrightarrow> length rest' \<le> length rest"
  using ms_pos by fastforce

lemma ms_progress:
  "\<not> nullable r \<Longrightarrow> (prev', rest', caps') \<in> set (ms r (prev, rest, caps)) \<Longrightarrow>
   length rest' < length rest"
proof (induction r arbitrary: prev rest caps prev' rest' caps')
  case (Atom p)
  then show ?case by (cases rest) (auto split: if_splits)
next
  case (Plus p)
  then show ?case using runs_tl_shorter by auto
next
  case (Alt a b)
  then show ?case by auto
next
  case (Seq a b)
  then obtain y where y: "y \<in> set (ms a (prev, rest, caps))"
    and x: "(prev', rest', caps') \<in> set (ms b y)"
    by auto
  obtain p1 r1 c1 where y': "y = (p1, r1, c1)" by (cases y) auto
  have l1: "length r1 \<le> length rest" using y y' ms_length by blast
  have l2: "length rest' \<le> length r1" using x y' ms_length by blast
  show ?case
  proof (cases "nullable a")
    case False
    then have "length r1 < length rest" using Seq.IH(1) y y' by blast
    then show ?thesis using l2 by simp
  next
    case True
    then have "\<not> nullable b" using Seq.prems(1) by simp
    then have "length rest' < length r1" using Seq.IH(2) x y' by blast
    then show ?thesis using l1 by simp
  qed
next
  case (Group n r)
  then obtain c where "(prev', rest', c) \<in> set (ms r (prev, rest, caps))"
    by auto
  then show ?case using Group by auto
qed simp_all

lemma execLoop_total: "\<not> nullable r \<Longrightarrow> execLoop r prev rest \<noteq> None"
proof (induction r prev rest rule: execLoop.induct)
  case (1 r prev rest)
  show ?case
  proof (cases "scan r prev rest")
    case None
    then show ?thesis by (subst execLoop.simps) simp
  next
    case (Some m)
    obtain start prev' rest' caps where m: "m = (start, (prev', rest', caps))"
      by (cases m) auto
    obtain pre sts where p: "rest = pre @ start"
      "ms r (lastOr prev pre, start, []) = (prev', rest', caps) # sts"
      using scan_pos Some m by blast
    have "(prev', rest', caps) \<in> set (ms r (lastOr prev pre, start, []))"
      using p(2) by simp
    then have "length rest' < length start" using ms_progress "1.prems" by blast
    then have lt: "length rest' < length rest" using p(1) by simp
    have "execLoop r prev' rest' \<noteq> None"
      using "1.IH" [OF Some m [symmetric] _ _ lt] "1.prems" by (metis prod.collapse)
    then show ?thesis
      using Some m lt by (subst execLoop.simps) auto
  qed
qed

lemma nullable_cat: "nullable (cat rs) = list_all nullable rs"
  by (induction rs) (simp_all add: cat_def)

lemma execAll_total: "\<not> nullable r \<Longrightarrow> \<exists>found. execAll r s = Some found"
  using execLoop_total [of r None s] by (auto simp: execAll_def)

lemma exports_never_diverge: "getExportedComponents text \<noteq> Inl Diverges"
proof -
  have "\<not> nullable namedExportRegex" "\<not> nullable directExportRegex"
    by (simp_all add: namedExportRegex_def directExportRegex_def nullable_cat chr_def)
  then obtain a b where "execAll namedExportRegex text = Some a" "execAll directExportRegex text = Some b"
    using execAll_total by blast
  moreover have "itemComponents text m items \<noteq> Inl Diverges" for m items
    by (induction items) (auto simp: Let_def split: option.splits sum.splits)
  then have "namedComponents text ms \<noteq> Inl Diverges" for ms
    by (induction ms) (auto split: sum.splits)
  ultimately show ?thesis
    by (auto simp: getExportedComponents_def split: sum.splits)
qed

lemma used_total:
  "fragment styleFileName = Some r \<Longrightarrow> \<exists>used. usedComponentsOf content styleFileName = Inr used"
proof -
  assume f: "fragment styleFileName = Some r"
  have "\<not> nullable (usageRegex a)" for a
    by (cases a) (simp_all add: usageRegex_def nullable_cat)
  then have "\<exists>found. execAll (usageRegex a) content = Some found" for a
    by (rule execAll_total)
  then show ?thesis
    using f
    by (auto simp: usedComponentsOf_def namespaceAliasOf_def namespaceImportRegex_def
        split: sum.splits option.splits)
qed


section \<open>Reads leave the answers of the content store as they are\<close>

lemma read_fields:
  "importingFilesCache (snd (readFileWithCache env s u)) = importingFilesCache s"
  "componentUsageCache (snd (readFileWithCache env s u)) = componentUsageCache s"
  "diagnosticCollection (snd (readFileWithCache env s u)) = diagnosticCollection s"
  by (auto simp: readFileWithCache_def evict_def Let_def split: option.splits)

lemma read_sameView: "sameView env s (snd (readFileWithCache env s u))"
  unfolding sameView_def storeView_def
  by (rule ext) (auto simp: readFileWithCache_def evict_def Let_def split: option.splits if_splits)

lemma sameView_refl [simp]: "sameView env s s"
  by (simp add: sameView_def)

lemma sameView_trans: "sameView env s s1 \<Longrightarrow> sameView env s1 s2 \<Longrightarrow> sameView env s s2"
  by (simp add: sameView_def)

lemma frame_refl [simp]: "frame env s s"
  by (simp add: frame_def)

lemma frame_trans: "frame env s s1 \<Longrightarrow> frame env s1 s2 \<Longrightarrow> frame env s s2"
  by (auto simp: frame_def intro: sameView_trans)

lemma read_frame: "readFileWithCache env s u = (r, s') \<Longrightarrow> frame env s s'"
  using read_sameView [of env s u] read_fields [of env s u] by (simp add: frame_def)

lemma importsFrom_sameView: "sameView env s s' \<Longrightarrow> importsFrom env s' n = importsFrom env s n"
  by (rule ext) (simp add: importsFrom_def sameView_def)

lemma scanFiles_pure:
  "map_sum id fst (scanFiles env s fileName files) = importersAmong (importsFrom env s fileName) files \<and>
   (\<forall>found s'. scanFiles env s fileName files = Inr (found, s') \<longrightarrow> frame env s s')"
proof (induction files arbitrary: s)
  case Nil
  show ?case by simp
next
  case (Cons y files)
  obtain content s1 where r: "readFileWithCache env s y = (content, s1)"
    by (cases "readFileWithCache env s y")
  have f: "frame env s s1" using r by (rule read_frame)
  then have i: "importsFrom env s1 fileName = importsFrom env s fileName"
    by (simp add: frame_def importsFrom_sameView)
  have v: "importsFrom env s fileName y =
     (case content of None \<Rightarrow> Inr False
      | Some c \<Rightarrow> if c = [] then Inr False else mightImportFromFile c fileName)"
    using r by (simp add: importsFrom_def storeView_def)
  show ?case
    using Cons.IH [of s1] r f i v
    by (auto simp: split: sum.splits prod.splits intro: frame_trans)
qed

lemma scanFolders_pure:
  "map_sum id fst (scanFolders env s doc folders) =
     importersInFolders env (importsFrom env s (baseName doc)) doc folders \<and>
   (\<forall>found s'. scanFolders env s doc folders = Inr (found, s') \<longrightarrow> frame env s s')"
proof (induction folders arbitrary: s)
  case Nil
  show ?case by simp
next
  case (Cons folder folders)
  let ?files = "filter (\<lambda>fileUri. fsPath fileUri \<noteq> document_fileName doc) (findFiles env folder)"
  note a = scanFiles_pure [of env s "baseName doc" ?files]
  show ?case
  proof (cases "scanFiles env s (baseName doc) ?files")
    case (Inl e)
    then have "importersAmong (importsFrom env s (baseName doc)) ?files = Inl e"
      using a by simp
    then show ?thesis using Inl by (simp add: Let_def)
  next
    case (Inr p)
    obtain found s1 where p: "p = (found, s1)" by (cases p)
    have f: "frame env s s1" using a Inr p by simp
    then have i: "importsFrom env s1 (baseName doc) = importsFrom env s (baseName doc)"
      by (simp add: frame_def importsFrom_sameView)
    have b: "importersAmong (importsFrom env s (baseName doc)) ?files = Inr found"
      using a Inr p by simp
    show ?thesis
    proof (cases "scanFolders env s1 doc folders")
      case (Inl e)
      then have "importersInFolders env (importsFrom env s (baseName doc)) doc folders = Inl e"
        using Cons.IH [of s1] i by simp
      then show ?thesis using Inl Inr p b by (simp add: Let_def)
    next
      case (Inr q)
      obtain others s2 where q: "q = (others, s2)" by (cases q)
      have "importersInFolders env (importsFrom env s (baseName doc)) doc folders = Inr others"
        using Cons.IH [of s1] i Inr q by simp
      moreover have "frame env s1 s2"
        using Cons.IH [of s1] Inr q by simp
      ultimately show ?thesis
        using Inr q \<open>scanFiles env s (baseName doc) ?files = Inr p\<close> p b f
        by (auto simp: Let_def intro: frame_trans)
    qed
  qed
qed

lemma importersOf_eq:
  "importersOf env s doc =
     (case importingFilesCache s (toString (uri doc)) of
        Some cached \<Rightarrow> Inr cached
      | None \<Rightarrow>
          (case workspaceFolders env of
             None \<Rightarrow> Inr []
           | Some folders \<Rightarrow> importersInFolders env (importsFrom env s (baseName doc)) doc folders))"
proof -
  have "importersInFolders env (importsFrom env s (baseName doc)) doc folders =
          map_sum id fst (scanFolders env s doc folders)" for folders
    using scanFolders_pure by simp
  then show ?thesis
    by (auto simp: importersOf_def findFilesImportingFromCached_def Let_def
        split: option.splits sum.splits prod.splits)
qed

lemma cachedUsage_read [simp]:
  "cachedUsage (snd (readFileWithCache env s u)) k n = cachedUsage s k n"
  by (simp add: cachedUsage_def read_fields)

lemma usedSymbolsOf_eq:
  "usedSymbolsOf env s Y doc =
     (case cachedUsage s (toString Y) (baseName doc) of
        Some cached \<Rightarrow> Inr (Some cached)
      | None \<Rightarrow>
          (case storeView env s Y of
             None \<Rightarrow> Inr None
           | Some content \<Rightarrow>
               if content = [] then Inr None
               else map_sum id Some (usedComponentsOf content (baseName doc))))"
  by (auto simp: usedSymbolsOf_def getUsedComponentsFromFileCached_def storeView_def Let_def
      split: option.splits prod.splits sum.splits)


section \<open>Answers are stable under the queries of a check\<close>

lemma sameAnswers_refl [simp]: "sameAnswers env doc s s"
  by (simp add: sameAnswers_def)

lemma sameAnswers_trans:
  "sameAnswers env doc s s1 \<Longrightarrow> sameAnswers env doc s1 s2 \<Longrightarrow> sameAnswers env doc s s2"
  by (simp add: sameAnswers_def sameView_def)

lemma sameAnswers_used:
  "sameAnswers env doc s s' \<Longrightarrow> usedSymbolsOf env s' Y doc = usedSymbolsOf env s Y doc"
  by (auto simp: sameAnswers_def dest: fun_cong)

lemma sameAnswers_importers:
  "sameAnswers env doc s s' \<Longrightarrow> importersOf env s' doc = importersOf env s doc"
  by (simp add: sameAnswers_def)

lemma sameAnswersI:
  assumes "sameView env s s'"
    and "\<And>Y. usedSymbolsOf env s' Y doc = usedSymbolsOf env s Y doc"
    and "importingFilesCache s' (toString (uri doc)) = importingFilesCache s (toString (uri doc)) \<or>
         importingFilesCache s' (toString (uri doc)) = Some L \<and> importersOf env s doc = Inr L"
  shows "sameAnswers env doc s s'"
proof -
  have i: "importsFrom env s' (baseName doc) = importsFrom env s (baseName doc)"
    using assms(1) by (rule_tac ext) (simp add: importsFrom_sameView)
  have "importersOf env s' doc = importersOf env s doc"
    using assms(3) i
    by (auto simp: importersOf_eq [of env s'] importersOf_eq [of env s] cong: option.case_cong)
  then show ?thesis using assms(1,2) by (simp add: sameAnswers_def)
qed

lemma usedSymbolsOf_cong:
  "storeView env s' Y = storeView env s Y \<Longrightarrow>
   cachedUsage s' (toString Y) (baseName doc) = cachedUsage s (toString Y) (baseName doc) \<Longrightarrow>
   usedSymbolsOf env s' Y doc = usedSymbolsOf env s Y doc"
  by (simp add: usedSymbolsOf_eq cong: option.case_cong)

lemma frame_sameAnswers: "frame env s s' \<Longrightarrow> sameAnswers env doc s s'"
  by (rule sameAnswersI [where L = "[]"])
    (auto simp: frame_def cachedUsage_def sameView_def intro!: usedSymbolsOf_cong)

lemma storeView_fields [simp]:
  "storeView env (s\<lparr>importingFilesCache := a\<rparr>) = storeView env s"
  "storeView env (s\<lparr>componentUsageCache := b\<rparr>) = storeView env s"
  "storeView env (s\<lparr>diagnosticCollection := c\<rparr>) = storeView env s"
  by (rule ext, simp add: storeView_def readFileWithCache_def evict_def Let_def
      split: option.splits prod.splits)+

lemma diag_sameAnswers: "sameAnswers env doc s (s\<lparr>diagnosticCollection := c\<rparr>)"
  by (rule sameAnswersI [where L = "[]"])
    (auto simp: cachedUsage_def sameView_def intro!: usedSymbolsOf_cong)

lemma getUsed_sameAnswers:
  assumes "getUsedComponentsFromFileCached env s Y doc = Inr (r, s')"
  shows "sameAnswers env doc s s' \<and> diagnosticCollection s' = diagnosticCollection s"
proof (cases "cachedUsage s (toString Y) (baseName doc)")
  case (Some cached)
  then show ?thesis using assms by (simp add: getUsedComponentsFromFileCached_def Let_def)
next
  case None
  obtain content s1 where rd: "readFileWithCache env s Y = (content, s1)"
    by (cases "readFileWithCache env s Y")
  have f: "frame env s s1" using rd by (rule read_frame)
  show ?thesis
  proof (cases "content = None \<or> content = Some []")
    case True
    then have "s' = s1"
      using assms None rd by (auto simp: getUsedComponentsFromFileCached_def Let_def)
    then show ?thesis using f frame_sameAnswers by (auto simp: frame_def)
  next
    case False
    then obtain c where c: "content = Some c" "c \<noteq> []" by auto
    then obtain U where U: "usedComponentsOf c (baseName doc) = Inr U"
      and s': "s' = storeUsage s1 (toString Y) (baseName doc) U" and r: "r = Some U"
      using assms None rd
      by (auto simp: getUsedComponentsFromFileCached_def Let_def split: sum.splits)
    have v: "storeView env s Y = Some c" using rd c by (simp add: storeView_def)
    have sv: "sameView env s s'"
      using f by (simp add: s' storeUsage_def frame_def sameView_def)
    have "usedSymbolsOf env s' Z doc = usedSymbolsOf env s Z doc" for Z
    proof (cases "Z = Y")
      case True
      then show ?thesis
        using None v c U by (simp add: usedSymbolsOf_eq s' storeUsage_def cachedUsage_def)
    next
      case False
      have "cachedUsage s' (toString Z) (baseName doc) = cachedUsage s (toString Z) (baseName doc)"
        using False f by (simp add: s' storeUsage_def cachedUsage_def frame_def)
      then show ?thesis
        using sv by (auto simp: sameView_def intro!: usedSymbolsOf_cong)
    qed
    moreover have "importingFilesCache s' = importingFilesCache s"
      using f by (simp add: s' storeUsage_def frame_def)
    moreover have "diagnosticCollection s' = diagnosticCollection s"
      using f by (simp add: s' storeUsage_def frame_def)
    ultimately show ?thesis
      using sv sameAnswersI [of env s s' doc "[]"] by simp
  qed
qed

lemma findFiles_sameAnswers:
  assumes "findFilesImportingFromCached env s doc = Inr (L, s')"
  shows "sameAnswers env doc s s' \<and> diagnosticCollection s' = diagnosticCollection s"
proof (cases "importingFilesCache s (toString (uri doc))")
  case (Some cached)
  then show ?thesis using assms by (simp add: findFilesImportingFromCached_def Let_def)
next
  case None
  show ?thesis
  proof (cases "workspaceFolders env")
    case None
    then show ?thesis
      using assms \<open>importingFilesCache s (toString (uri doc)) = None\<close>
      by (simp add: findFilesImportingFromCached_def Let_def)
  next
    case (Some folders)
    then obtain s1 where sc: "scanFolders env s doc folders = Inr (L, s1)"
      and s': "s' = s1\<lparr>importingFilesCache := (importingFilesCache s1)(toString (uri doc) \<mapsto> L)\<rparr>"
      using assms None
      by (auto simp: findFilesImportingFromCached_def Let_def split: sum.splits)
    have f: "frame env s s1" using sc scanFolders_pure by blast
    have i: "importersOf env s doc = Inr L"
      using assms by (simp add: importersOf_def)
    have "usedSymbolsOf env s' Y doc = usedSymbolsOf env s Y doc" for Y
      using f by (auto simp: s' cachedUsage_def frame_def sameView_def intro!: usedSymbolsOf_cong)
    moreover have "sameView env s s'"
      using f by (simp add: s' frame_def sameView_def)
    moreover have "diagnosticCollection s' = diagnosticCollection s"
      using f by (simp add: s' frame_def)
    ultimately show ?thesis
      using i sameAnswersI [of env s s' doc L] by (simp add: s')
  qed
qed

lemma collectUsage_pure:
  "map_sum id fst (collectUsage env s doc L acc) = usageFrom (\<lambda>Y. usedSymbolsOf env s Y doc) L acc \<and>
   (\<forall>u s'. collectUsage env s doc L acc = Inr (u, s') \<longrightarrow>
      sameAnswers env doc s s' \<and> diagnosticCollection s' = diagnosticCollection s)"
proof (induction L arbitrary: s acc)
  case Nil
  show ?case by simp
next
  case (Cons Y L)
  show ?case
  proof (cases "getUsedComponentsFromFileCached env s Y doc")
    case (Inl e)
    then have "usedSymbolsOf env s Y doc = Inl e" by (simp add: usedSymbolsOf_def)
    then show ?thesis using Inl by simp
  next
    case (Inr p)
    obtain r s1 where p: "p = (r, s1)" by (cases p)
    have a: "sameAnswers env doc s s1" and d: "diagnosticCollection s1 = diagnosticCollection s"
      using getUsed_sameAnswers Inr p by blast+
    have u: "usedSymbolsOf env s Y doc = Inr r" using Inr p by (simp add: usedSymbolsOf_def)
    have e: "(\<lambda>Y. usedSymbolsOf env s1 Y doc) = (\<lambda>Y. usedSymbolsOf env s Y doc)"
      using a by (simp add: sameAnswers_def)
    show ?thesis
    proof (cases r)
      case None
      then show ?thesis
        using Cons.IH [of s1 acc] Inr p u e a d by (auto intro: sameAnswers_trans)
    next
      case (Some U)
      then show ?thesis
        using Cons.IH [of s1 "mapSet acc (toString Y) U"] Inr p u e a d
        by (auto intro: sameAnswers_trans)
    qed
  qed
qed



section \<open>What a check computes\<close>

lemma checkStyled_Inr:
  assumes "checkStyledComponentFile env s doc text = Inr s'"
  shows "\<exists>E L u. getExportedComponents text = Inr E \<and> importersOf env s doc = Inr L \<and>
           usageFrom (\<lambda>Y. usedSymbolsOf env s Y doc) L [] = Inr u \<and>
           diagnosticCollection s' =
             (diagnosticCollection s)(toString (uri doc) \<mapsto> unusedDiagnostics E u) \<and>
           sameAnswers env doc s s'"
proof -
  obtain E where E: "getExportedComponents text = Inr E"
    using assms by (auto simp: checkStyledComponentFile_def split: sum.splits)
  obtain L s1 where F: "findFilesImportingFromCached env s doc = Inr (L, s1)"
    using assms E by (auto simp: checkStyledComponentFile_def split: sum.splits)
  obtain u s2 where C: "collectUsage env s1 doc L [] = Inr (u, s2)"
    using assms E F by (auto simp: checkStyledComponentFile_def split: sum.splits)
  have s': "s' = s2\<lparr>diagnosticCollection := (diagnosticCollection s2)
                      (toString (uri doc) \<mapsto> unusedDiagnostics E u)\<rparr>"
    using assms E F C by (simp add: checkStyledComponentFile_def)
  have a1: "sameAnswers env doc s s1" and d1: "diagnosticCollection s1 = diagnosticCollection s"
    using findFiles_sameAnswers [OF F] by simp_all
  have a2: "sameAnswers env doc s1 s2" and d2: "diagnosticCollection s2 = diagnosticCollection s1"
    using collectUsage_pure [of env s1 doc L "[]"] C by simp_all
  have "usageFrom (\<lambda>Y. usedSymbolsOf env s1 Y doc) L [] = Inr u"
    using collectUsage_pure [of env s1 doc L "[]"] C by simp
  moreover have "(\<lambda>Y. usedSymbolsOf env s1 Y doc) = (\<lambda>Y. usedSymbolsOf env s Y doc)"
    using a1 by (simp add: sameAnswers_def)
  ultimately have U: "usageFrom (\<lambda>Y. usedSymbolsOf env s Y doc) L [] = Inr u" by simp
  have "sameAnswers env doc s s'"
    unfolding s' using a1 a2 diag_sameAnswers sameAnswers_trans by blast
  moreover have "importersOf env s doc = Inr L" using F by (simp add: importersOf_def)
  ultimately show ?thesis using E U s' d1 d2 by auto
qed

lemma checkStyled_total:
  assumes "getExportedComponents text = Inr E" and "importersOf env s doc = Inr L"
    and "usageFrom (\<lambda>Y. usedSymbolsOf env s Y doc) L [] = Inr u"
  shows "\<exists>s'. checkStyledComponentFile env s doc text = Inr s'"
proof -
  obtain s1 where F: "findFilesImportingFromCached env s doc = Inr (L, s1)"
    using assms(2) by (cases "findFilesImportingFromCached env s doc") (auto simp: importersOf_def)
  have a1: "sameAnswers env doc s s1"
    using findFiles_sameAnswers [OF F] by simp
  have "(\<lambda>Y. usedSymbolsOf env s1 Y doc) = (\<lambda>Y. usedSymbolsOf env s Y doc)"
    using a1 by (simp add: sameAnswers_def)
  then have "map_sum id fst (collectUsage env s1 doc L []) = Inr u"
    using collectUsage_pure [of env s1 doc L "[]"] assms(3) by simp
  then obtain s2 where "collectUsage env s1 doc L [] = Inr (u, s2)"
    by (cases "collectUsage env s1 doc L []") auto
  then show ?thesis using assms(1) F by (simp add: checkStyledComponentFile_def)
qed




lemma messageFor_inj [simp]: "(messageFor a = messageFor b) = (a = b)"
  by (simp add: messageFor_def)





section \<open>A workspace with a button and a page\<close>

lemma button_exports:
  "getExportedComponents (getText buttonDoc) = Inr [\<lparr>name = ''Button'', range = (13, 19)\<rparr>]"
  unfolding buttonDoc_def buttonText_def by code_simp

lemma button_styled: "isStyledComponentFile (getText buttonDoc)"
  unfolding buttonDoc_def buttonText_def by code_simp

lemma button_baseName: "baseName buttonDoc = ''Button''"
  by code_simp

lemma page_imports: "mightImportFromFile pageText ''Button'' = Inr True"
  by code_simp

lemma page_uses: "usedComponentsOf pageText ''Button'' = Inr {''P'', ''Button''}"
  by code_simp

lemma button_first_check: "checkDocument (diskEnv pageText) initialState buttonDoc = Inr buttonChecked"
proof -
  have n: "pageText \<noteq> []" by (simp add: pageText_def)
  have js: "isJsOrTsFile buttonDoc" by (simp add: buttonDoc_def isJsOrTsFile_def)
  have k: "document_fileName buttonDoc = ''/w/Button.tsx''" "uri buttonDoc = Uri ''/w/Button.tsx''"
    by (simp_all add: buttonDoc_def document_fileName_def)
  show ?thesis
    using n
    by (simp add: checkDocument_def js button_styled checkStyledComponentFile_def button_exports
        findFilesImportingFromCached_def initialState_def diskEnv_def pageEnv_def k button_baseName
        readFileWithCache_def evict_def pageUri_def page_imports
        getUsedComponentsFromFileCached_def cachedUsage_def storeUsage_def page_uses
        unusedDiagnostics_def buttonChecked_def Let_def toString_def)
qed








text \<open>
  C7. When a check of a document ends, a second check of the same document in the state
  that the first one left, with the file system and the workspace as they were, ends too
  and leaves the same diagnostics for the document: the same list, so the same symbols,
  messages and ranges.
\<close>

theorem check_twice:
  assumes "checkDocument env s doc = Inr s1"
  shows "\<exists>s2. checkDocument env s1 doc = Inr s2 \<and>
           diagnosticCollection s2 (toString (uri doc)) = diagnosticCollection s1 (toString (uri doc))"
proof (cases "isJsOrTsFile doc")
  case False
  then show ?thesis using assms by (simp add: checkDocument_def)
next
  case js: True
  let ?k = "toString (uri doc)"
  show ?thesis
  proof (cases "isStyledComponentFile (getText doc)")
    case False
    then show ?thesis using assms js by (auto simp: checkDocument_def)
  next
    case True
    let ?s0 = "s\<lparr>diagnosticCollection := (diagnosticCollection s)(?k := None)\<rparr>"
    let ?s0' = "s1\<lparr>diagnosticCollection := (diagnosticCollection s1)(?k := None)\<rparr>"
    have c1: "checkStyledComponentFile env ?s0 doc (getText doc) = Inr s1"
      using assms js True by (simp add: checkDocument_def Let_def)
    obtain E L u where E: "getExportedComponents (getText doc) = Inr E"
      and L: "importersOf env ?s0 doc = Inr L"
      and u: "usageFrom (\<lambda>Y. usedSymbolsOf env ?s0 Y doc) L [] = Inr u"
      and d: "diagnosticCollection s1 = (diagnosticCollection ?s0)(?k \<mapsto> unusedDiagnostics E u)"
      and a: "sameAnswers env doc ?s0 s1"
      using checkStyled_Inr [OF c1] by blast
    have a': "sameAnswers env doc ?s0 ?s0'"
      using a diag_sameAnswers sameAnswers_trans by blast
    have L': "importersOf env ?s0' doc = Inr L"
      using a' L by (simp add: sameAnswers_def)
    have "(\<lambda>Y. usedSymbolsOf env ?s0' Y doc) = (\<lambda>Y. usedSymbolsOf env ?s0 Y doc)"
      using a' by (simp add: sameAnswers_def)
    then have u': "usageFrom (\<lambda>Y. usedSymbolsOf env ?s0' Y doc) L [] = Inr u"
      using u by simp
    obtain s2 where c2: "checkStyledComponentFile env ?s0' doc (getText doc) = Inr s2"
      using checkStyled_total [OF E L' u'] by blast
    obtain E2 L2 u2 where "getExportedComponents (getText doc) = Inr E2"
      and "importersOf env ?s0' doc = Inr L2"
      and "usageFrom (\<lambda>Y. usedSymbolsOf env ?s0' Y doc) L2 [] = Inr u2"
      and d2: "diagnosticCollection s2 = (diagnosticCollection ?s0')(?k \<mapsto> unusedDiagnostics E2 u2)"
      using checkStyled_Inr [OF c2] by blast
    then have "E2 = E" "L2 = L" "u2 = u" using E L' u' by simp_all
    then have "diagnosticCollection s2 ?k = diagnosticCollection s1 ?k"
      using d d2 by simp
    moreover have "checkDocument env s1 doc = Inr s2"
      using c2 js True by (simp add: checkDocument_def Let_def)
    ultimately show ?thesis by blast
  qed
qed

theorem check_twice_witness:
  "checkDocument (diskEnv pageText) initialState buttonDoc = Inr buttonChecked \<and>
   (\<exists>s2. checkDocument (diskEnv pageText) buttonChecked buttonDoc = Inr s2 \<and>
      diagnosticCollection s2 (toString (uri buttonDoc)) =
      diagnosticCollection buttonChecked (toString (uri buttonDoc)))"
  using button_first_check check_twice [OF button_first_check] by simp



section \<open>The importers of a document\<close>













section \<open>Files that cannot be read\<close>








section \<open>Invalidation of the used-symbol sets\<close>

lemma knob_exports:
  "getExportedComponents (getText knobDoc) = Inr [\<lparr>name = ''Knob'', range = (13, 17)\<rparr>]"
  unfolding knobDoc_def buttonDoc_def by code_simp

lemma knob_styled: "isStyledComponentFile (getText knobDoc)"
  unfolding knobDoc_def buttonDoc_def by code_simp

lemma knob_baseName: "baseName knobDoc = ''Button''"
  by code_simp

lemma knobPage_imports: "mightImportFromFile knobPageText ''Button'' = Inr True"
  by code_simp

lemma knobPage_uses: "usedComponentsOf knobPageText ''Button'' = Inr {''P'', ''Knob'', ''Button''}"
  by code_simp

lemma knob_save: "onDidSaveTextDocument (pageEnv 3 knobPageText) buttonChecked knobDoc = Inr knobSaved"
proof -
  have n: "knobPageText \<noteq> []" by (simp add: knobPageText_def)
  have js: "isJsOrTsFile knobDoc" by (simp add: knobDoc_def buttonDoc_def isJsOrTsFile_def)
  have k: "document_fileName knobDoc = ''/w/Button.tsx''" "uri knobDoc = Uri ''/w/Button.tsx''"
    "uri buttonDoc = Uri ''/w/Button.tsx''"
    by (simp_all add: knobDoc_def buttonDoc_def document_fileName_def)
  show ?thesis
    using n
    by (simp add: onDidSaveTextDocument_def invalidateCachesForFile_def
        checkDocument_def js knob_styled checkStyledComponentFile_def knob_exports
        findFilesImportingFromCached_def buttonChecked_def pageEnv_def k knob_baseName
        readFileWithCache_def evict_def pageUri_def knobPage_imports
        getUsedComponentsFromFileCached_def cachedUsage_def
        unusedDiagnostics_def knobSaved_def Let_def toString_def fun_upd_twist)
qed

text \<open>
  C4 as stated fails: \<open>invalidateCachesForFile\<close> drops the used-symbol sets that are cached
  under the saved file as the importing file, and nothing else drops any. After a check of
  \<open>Button.tsx\<close>, its component is renamed to \<open>Knob\<close>, in the button file and in the page on
  disk, and the button file is saved. The save handler's check finds the page's set for
  the button file still cached, \<open>P\<close> and \<open>Button\<close>, and reports \<open>Knob\<close> as unused, while the
  page's current content uses \<open>Knob\<close>.
\<close>

theorem usage_cache_counterexample:
  "onDidSaveTextDocument (pageEnv 3 knobPageText) buttonChecked knobDoc = Inr knobSaved \<and>
   map message (diagnosticsOf knobSaved knobDoc) = [messageFor ''Knob''] \<and>
   cachedUsage knobSaved (toString pageUri) (baseName knobDoc) = Some {''P'', ''Button''} \<and>
   storeView (pageEnv 3 knobPageText) knobSaved pageUri = Some knobPageText \<and>
   usedComponentsOf knobPageText (baseName knobDoc) = Inr {''P'', ''Knob'', ''Button''}"
proof -
  have "storeView (pageEnv 3 knobPageText) knobSaved pageUri = Some knobPageText"
    by (simp add: storeView_def readFileWithCache_def pageEnv_def pageUri_def knobSaved_def Let_def)
  then show ?thesis
    using knob_save knobPage_uses
    by (simp add: diagnosticsOf_def knobSaved_def knobDoc_def diagnosticFor_def cachedUsage_def
        knob_baseName [unfolded knobDoc_def])
qed

text \<open>
  C4, amended. After \<open>invalidateCachesForFile\<close> for an importing file (its save, or the
  manual check on it), the next query for that file and any source document computes the
  set from the content that is on disk. \<open>invalidateCachesForFile\<close> for the source document
  leaves the sets cached under other importing files in place, and the handler of an edit
  leaves the whole usage cache in place.
\<close>

theorem usage_cache_invalidation:
  "usedSymbolsOf env (invalidateCachesForFile s Y) Y doc =
     (case statSync env (fsPath Y) of
        None \<Rightarrow> Inr None
      | Some mtime \<Rightarrow>
          (case readFileSync env (fsPath Y) of
             None \<Rightarrow> Inr None
           | Some content \<Rightarrow>
               if content = [] then Inr None
               else map_sum id Some (usedComponentsOf content (baseName doc)))) \<and>
   (Y \<noteq> uri doc \<longrightarrow>
      cachedUsage (invalidateCachesForFile s (uri doc)) (toString Y) (baseName doc) =
      cachedUsage s (toString Y) (baseName doc)) \<and>
   componentUsageCache (onDidChangeTextDocument s doc') = componentUsageCache s"
  by (auto simp: usedSymbolsOf_eq storeView_def readFileWithCache_def invalidateCachesForFile_def
      cachedUsage_def onDidChangeTextDocument_def evict_def Let_def split: option.splits)

theorem usage_cache_invalidation_witness:
  "usedSymbolsOf (pageEnv 3 knobPageText) (invalidateCachesForFile buttonChecked pageUri) pageUri knobDoc =
     Inr (Some {''P'', ''Knob'', ''Button''}) \<and>
   pageUri \<noteq> uri knobDoc \<and>
   cachedUsage (invalidateCachesForFile buttonChecked (uri knobDoc)) (toString pageUri) (baseName knobDoc) =
     Some {''P'', ''Button''} \<and>
   componentUsageCache (onDidChangeTextDocument buttonChecked knobDoc) = componentUsageCache buttonChecked"
proof -
  have n: "knobPageText \<noteq> []" by (simp add: knobPageText_def)
  have d: "pageUri \<noteq> uri knobDoc" by (simp add: pageUri_def knobDoc_def buttonDoc_def)
  have c: "cachedUsage buttonChecked (toString pageUri) (baseName knobDoc) = Some {''P'', ''Button''}"
    by (simp add: cachedUsage_def buttonChecked_def knob_baseName)
  have e: "statSync (pageEnv 3 knobPageText) (fsPath pageUri) = Some 3"
    "readFileSync (pageEnv 3 knobPageText) (fsPath pageUri) = Some knobPageText"
    by (simp_all add: pageEnv_def pageUri_def)
  show ?thesis
    using n d c e knobPage_uses
      usage_cache_invalidation [of "pageEnv 3 knobPageText" buttonChecked pageUri knobDoc knobDoc]
    by (simp add: knob_baseName)
qed



section \<open>The used-symbol set of a content\<close>

lemma addUsages_elem:
  "tok \<in> addUsages found acc \<Longrightarrow>
   tok \<in> acc \<or> (\<exists>m \<in> set found. potentialComp m = Some tok \<and> tok \<noteq> [] \<and> hd tok = toUpperCase (hd tok))"
proof (induction found arbitrary: acc)
  case Nil
  then show ?case by simp
next
  case (Cons m found)
  show ?case
    using Cons.IH [OF Cons.prems [simplified]]
    by (auto split: option.splits list.splits if_splits)
qed

lemma usage_hd:
  assumes "ms (usageRegex alias) (prev, rest, []) = st # sts"
    and "potentialComp \<lparr>index = i, matched = t, groups = snd (snd st)\<rparr> = Some tok"
  shows "tokenAfter prev rest tok"
proof (cases "alias")
  case None
  then obtain g where "snd (snd st) = [(1, g)]" "tokenAfter prev rest g"
    using usage_plain_hd [of 1 prev rest st sts] assms(1) by (auto simp: usageRegex_def)
  then show ?thesis
    using assms(2) by (auto simp: potentialComp_def group_def tokenAfter_def split: if_splits)
next
  case (Some a)
  let ?b1 = "cat [Alt (chr CHR ''<'') WordB, lit a, chr CHR ''.'', Group 1 (Plus isWordChar)]"
  let ?b2 = "cat [Alt (chr CHR ''<'') WordB, Group 2 (Plus isWordChar)]"
  have e: "ms ?b1 (prev, rest, []) @ ms ?b2 (prev, rest, []) = st # sts"
    using assms(1) Some by (simp add: usageRegex_def)
  show ?thesis
  proof (cases "ms ?b1 (prev, rest, [])")
    case Nil
    then have "ms ?b2 (prev, rest, []) = st # sts" using e by simp
    then obtain g where "snd (snd st) = [(2, g)]" "tokenAfter prev rest g"
      using usage_plain_hd [of 2 prev rest st sts] by auto
    then show ?thesis
      using assms(2) by (auto simp: potentialComp_def group_def tokenAfter_def split: if_splits)
  next
    case (Cons y ys)
    then have "y = st" using e by simp
    then obtain g where "snd (snd st) = [(1, g)]" "tokenAfter prev rest g"
      using usage_alias_hd [of a 1 prev rest st ys] Cons by auto
    then show ?thesis
      using assms(2) by (auto simp: potentialComp_def group_def tokenAfter_def split: if_splits)
  qed
qed

lemma tokenAfter_pre:
  "tokenAfter (lastOr prev pre) rest tok \<Longrightarrow> tokenAfter prev (pre @ rest) tok"
  unfolding tokenAfter_def
  by (elim exE, rule_tac x = "pre @ lead" in exI) auto

lemma execAll_token:
  assumes "execAll (usageRegex alias) content = Some found" and "m \<in> set found"
    and "potentialComp m = Some tok"
  shows "tokenAfter None content tok"
proof -
  obtain raw where raw: "execLoop (usageRegex alias) None content = Some raw"
    and found: "found = map (mkMatch content) raw"
    using assms(1) by (auto simp: execAll_def)
  obtain start st where m: "(start, st) \<in> set raw" "m = mkMatch content (start, st)"
    using assms(2) found by auto
  obtain pre sts where p: "content = pre @ start"
    "ms (usageRegex alias) (lastOr None pre, start, []) = st # sts"
    using execLoop_pos [OF raw m(1)] by blast
  have "potentialComp \<lparr>index = index m, matched = matched m, groups = snd (snd st)\<rparr> = Some tok"
    using assms(3) m(2) by (cases st) (simp add: mkMatch_def potentialComp_def group_def)
  then have "tokenAfter (lastOr None pre) start tok"
    using usage_hd [OF p(2)] by blast
  then show ?thesis using p(1) tokenAfter_pre by blast
qed

lemma used_token:
  assumes "usedComponentsOf content styleFileName = Inr used" and "tok \<in> used"
  shows "tokenAfter None content tok \<and> hd tok = toUpperCase (hd tok)"
proof -
  obtain a found where f: "execAll (usageRegex a) content = Some found"
    and u: "used = addUsages found {}"
    using assms(1)
    by (auto simp: usedComponentsOf_def split: sum.splits option.splits)
  obtain m where m: "m \<in> set found" "potentialComp m = Some tok" "hd tok = toUpperCase (hd tok)"
    using addUsages_elem [of tok found "{}"] assms(2) u by auto
  show ?thesis
    using execAll_token [OF f m(1,2)] m(3) by simp
qed

lemma used_words: "usedComponentsOf content styleFileName = Inr used \<Longrightarrow> wordsOnly used"
  using used_token by (fastforce simp: wordsOnly_def tokenAfter_def list_all_iff)

lemma importOnly_uses: "usedComponentsOf importOnlyText ''Button'' = Inr {''Button''}"
  by code_simp

lemma importOnly_alias: "namespaceAliasOf importOnlyText ''Button'' = Inr None"
  by code_simp

lemma importOnly_shape: "\<not> occursInUsageShape importOnlyText None ''Button''"
  by code_simp

text \<open>
  C2 as stated fails: the usage pattern takes every word of the content, whatever stands
  before or after it. For a file whose whole content is the import statement
  \<open>import { Button } from './Button';\<close> the resolver finds no namespace alias and answers
  the set with \<open>Button\<close>, though \<open>Button\<close> occurs in none of the shapes \<open>Button(\<close>,
  \<open><Button\<close>, \<open>Button{\<close>.
\<close>

theorem used_shape_counterexample:
  "usedComponentsOf importOnlyText ''Button'' = Inr {''Button''} \<and>
   namespaceAliasOf importOnlyText ''Button'' = Inr None \<and>
   \<not> occursInUsageShape importOnlyText None ''Button''"
  using importOnly_uses importOnly_alias importOnly_shape by simp

text \<open>
  C2, amended. For every importing content and style file name, a token is in the
  used-symbol set that the resolver computes only if it is a whole word of the content,
  that is a non-empty run of word characters with no word character before it and none
  after it, and its first character is its own upper case (an upper-case letter, a digit
  or an underscore).
\<close>

theorem used_only_whole_words:
  assumes "usedComponentsOf content styleFileName = Inr used" and "tok \<in> used"
  shows "\<exists>lead post. content = lead @ tok @ post \<and> tok \<noteq> [] \<and> (\<forall>c \<in> set tok. isWordChar c) \<and>
           \<not> wordAfter post \<and> \<not> wordBefore (lastOr None lead) \<and>
           hd tok = toUpperCase (hd tok)"
  using used_token [OF assms] unfolding tokenAfter_def by blast

theorem used_only_whole_words_witness:
  "usedComponentsOf pageText ''Button'' = Inr {''P'', ''Button''} \<and>
   ''Button'' \<in> {''P'', ''Button''} \<and>
   (\<exists>lead post. pageText = lead @ ''Button'' @ post \<and> ''Button'' \<noteq> [] \<and>
      (\<forall>c \<in> set ''Button''. isWordChar c) \<and>
      \<not> wordAfter post \<and> \<not> wordBefore (lastOr None lead) \<and>
      hd ''Button'' = toUpperCase (hd ''Button''))"
proof -
  have i: "''Button'' \<in> {''P'', ''Button''}" by simp
  show ?thesis
    using page_uses i used_only_whole_words [OF page_uses i] by blast
qed



section \<open>Symbols that are not words\<close>


lemma words_cong:
  "componentUsageCache s' = componentUsageCache s \<Longrightarrow> usageCacheWordsOnly s' = usageCacheWordsOnly s"
  by (simp add: usageCacheWordsOnly_def cachedUsage_def)

lemma storeUsage_words:
  "usageCacheWordsOnly s \<Longrightarrow> wordsOnly used \<Longrightarrow> usageCacheWordsOnly (storeUsage s k n used)"
  by (auto simp: usageCacheWordsOnly_def cachedUsage_def storeUsage_def split: option.splits if_splits)

lemma getUsed_words:
  assumes "usageCacheWordsOnly s" and "getUsedComponentsFromFileCached env s Y doc = Inr (r, s')"
  shows "usageCacheWordsOnly s' \<and> (\<forall>used. r = Some used \<longrightarrow> wordsOnly used)"
proof (cases "cachedUsage s (toString Y) (baseName doc)")
  case (Some cached)
  then show ?thesis
    using assms by (auto simp: getUsedComponentsFromFileCached_def Let_def usageCacheWordsOnly_def)
next
  case None
  obtain content s1 where rd: "readFileWithCache env s Y = (content, s1)"
    by (cases "readFileWithCache env s Y")
  have w1: "usageCacheWordsOnly s1"
    using assms(1) read_fields(2) [of env s Y] rd words_cong [of s1 s] by simp
  show ?thesis
  proof (cases "content = None \<or> content = Some []")
    case True
    then show ?thesis
      using assms(2) None rd w1 by (auto simp: getUsedComponentsFromFileCached_def Let_def)
  next
    case False
    then obtain c where c: "content = Some c" "c \<noteq> []" by auto
    then obtain U where U: "usedComponentsOf c (baseName doc) = Inr U"
      and s': "s' = storeUsage s1 (toString Y) (baseName doc) U" and r: "r = Some U"
      using assms(2) None rd
      by (auto simp: getUsedComponentsFromFileCached_def Let_def split: sum.splits)
    have "wordsOnly U" using U by (rule used_words)
    then show ?thesis using w1 s' r storeUsage_words by simp
  qed
qed

lemma collectUsage_words:
  "usageCacheWordsOnly s \<Longrightarrow> collectUsage env s doc L acc = Inr (u, s') \<Longrightarrow> usageCacheWordsOnly s'"
proof (induction L arbitrary: s acc)
  case Nil
  then show ?case by simp
next
  case (Cons Y L)
  then obtain r s1 where g: "getUsedComponentsFromFileCached env s Y doc = Inr (r, s1)"
    by (auto split: sum.splits)
  have w: "usageCacheWordsOnly s1" using getUsed_words [OF Cons.prems(1) g] by simp
  show ?case
    using Cons.IH [OF w] Cons.prems(2) g by (cases r) auto
qed

lemma findFiles_words:
  assumes "usageCacheWordsOnly s" and "findFilesImportingFromCached env s doc = Inr (L, s')"
  shows "usageCacheWordsOnly s'"
proof -
  have "componentUsageCache s' = componentUsageCache s"
    using assms(2) scanFolders_pure [of env s doc]
    by (auto simp: findFilesImportingFromCached_def Let_def frame_def
        split: option.splits sum.splits)
  then show ?thesis using assms(1) words_cong by blast
qed

lemma check_keeps_words:
  assumes "usageCacheWordsOnly s" and "checkDocument env s doc = Inr s'"
  shows "usageCacheWordsOnly s'"
proof (cases "isJsOrTsFile doc \<and> isStyledComponentFile (getText doc)")
  case False
  then have "componentUsageCache s' = componentUsageCache s"
    using assms(2) by (auto simp: checkDocument_def Let_def split: if_splits)
  then show ?thesis using assms(1) words_cong by blast
next
  case True
  let ?s0 = "s\<lparr>diagnosticCollection := (diagnosticCollection s)(toString (uri doc) := None)\<rparr>"
  have w0: "usageCacheWordsOnly ?s0" using assms(1) words_cong [of ?s0 s] by simp
  have c: "checkStyledComponentFile env ?s0 doc (getText doc) = Inr s'"
    using assms(2) True by (simp add: checkDocument_def Let_def)
  then obtain L s1 u s2 where f: "findFilesImportingFromCached env ?s0 doc = Inr (L, s1)"
    and k: "collectUsage env s1 doc L [] = Inr (u, s2)"
    and e: "componentUsageCache s' = componentUsageCache s2"
    by (auto simp: checkStyledComponentFile_def split: sum.splits)
  have "usageCacheWordsOnly s2"
    using collectUsage_words [OF findFiles_words [OF w0 f] k] .
  then show ?thesis using e words_cong by blast
qed

lemma invalidate_keeps_words:
  "usageCacheWordsOnly s \<Longrightarrow> usageCacheWordsOnly (invalidateCachesForFile s fileUri)"
  by (auto simp: usageCacheWordsOnly_def cachedUsage_def invalidateCachesForFile_def Let_def
      split: option.splits if_splits)












end
